theory Spec2Isabelle
  imports Main
begin

section \<open>Python values shared by the services\<close>

text \<open>
  Exceptions of the Python code are values: a function that can raise returns
  \<open>error + 'a\<close>, with \<open>Inl\<close> for the raised exception. Strings are lists of
  characters with code points below 256.
\<close>

datatype error =
    NameError string      \<comment> \<open>a name that is bound in no enclosing scope\<close>
  | ValueError string     \<comment> \<open>\<open>ValueError(message)\<close>\<close>
  | InvalidLiteral string \<comment> \<open>the \<open>ValueError\<close> of \<open>int(s)\<close> for a string that is no number\<close>
  | TypeError
  | IndexError
  | KeyError
  | OverflowError
  | ZeroDivisionError
  | AttributeError
  | RedisError           \<comment> \<open>any exception of the Redis client\<close>

definition is_decimal :: "char \<Rightarrow> bool" where
  "is_decimal c = (48 \<le> (of_char c :: nat) \<and> (of_char c :: nat) \<le> 57)"

text \<open>\<open>int(d)\<close> for a string \<open>d\<close> of one character.\<close>

definition int_of_char :: "char \<Rightarrow> error + nat" where
  "int_of_char c =
     (if is_decimal c then Inr (of_char c - 48)
      else Inl (InvalidLiteral [c]))"

text \<open>\<open>[int(d) for d in s]\<close>: the first character that is no digit raises.\<close>

fun digits_of :: "string \<Rightarrow> error + nat list" where
  "digits_of [] = Inr []"
| "digits_of (c # cs) =
     (case int_of_char c of
        Inl e \<Rightarrow> Inl e
      | Inr d \<Rightarrow> (case digits_of cs of Inl e \<Rightarrow> Inl e | Inr ds \<Rightarrow> Inr (d # ds)))"

text \<open>\<open>str(n)\<close> for a natural number, and the list of its decimal digits.\<close>

fun digits_of_nat :: "nat \<Rightarrow> nat list" where
  "digits_of_nat n = (if n < 10 then [n] else digits_of_nat (n div 10) @ [n mod 10])"

declare digits_of_nat.simps [simp del]

definition char_of_digit :: "nat \<Rightarrow> char" where
  "char_of_digit d = char_of (48 + d)"

definition str_nat :: "nat \<Rightarrow> string" where
  "str_nat n = map char_of_digit (digits_of_nat n)"

section \<open>card\_generator.py: the checksum\<close>

text \<open>
  \<open>xs[-1::-2]\<close> is \<open>every_second (rev xs)\<close> and \<open>xs[-2::-2]\<close> is
  \<open>every_second (drop 1 (rev xs))\<close>: the slice walks from the end in steps of two.
\<close>

fun every_second :: "'a list \<Rightarrow> 'a list" where
  "every_second [] = []"
| "every_second [x] = [x]"
| "every_second (x # y # xs) = x # every_second xs"

definition luhn_checksum :: "string \<Rightarrow> error + bool" where
  "luhn_checksum card_number =
     (case digits_of card_number of
        Inl e \<Rightarrow> Inl e
      | Inr digits \<Rightarrow>
          (let odd_digits = every_second (rev digits);
               even_digits = every_second (drop 1 (rev digits));
               checksum = fold (\<lambda>d c. c + sum_list (digits_of_nat (d * 2))) even_digits
                            (sum_list odd_digits)
           in Inr (checksum mod 10 = 0)))"

text \<open>
  The loop \<open>for check_digit in range(10)\<close> of \<open>create_card_number\<close>: the first
  candidate whose number passes the checksum is returned; \<open>None\<close> is the loop
  running out of candidates.
\<close>

fun try_check_digits :: "string \<Rightarrow> nat list \<Rightarrow> error + string option" where
  "try_check_digits partial_number [] = Inr None"
| "try_check_digits partial_number (check_digit # rest) =
     (let full_number = partial_number @ str_nat check_digit
      in case luhn_checksum full_number of
           Inl e \<Rightarrow> Inl e
         | Inr True \<Rightarrow> Inr (Some full_number)
         | Inr False \<Rightarrow> try_check_digits partial_number rest)"

section \<open>Python strings\<close>

text \<open>
  \<open>str.isspace\<close>, \<open>str.isdigit\<close> and \<open>str.upper\<close> on the code points below 256.
  The upper-case forms of U+00B5 and U+00FF lie beyond 255; the model leaves the two
  characters unchanged (no ASCII text that the code searches for contains them).
\<close>

definition is_space :: "char \<Rightarrow> bool" where
  "is_space c = ((of_char c :: nat) \<in> {9, 10, 11, 12, 13, 28, 29, 30, 31, 32, 133, 160})"

definition isdigit :: "char \<Rightarrow> bool" where
  "isdigit c = (is_decimal c \<or> (of_char c :: nat) \<in> {178, 179, 185})"

definition strip :: "string \<Rightarrow> string" where
  "strip s = rev (dropWhile is_space (rev (dropWhile is_space s)))"

definition upper_char :: "char \<Rightarrow> string" where
  "upper_char c =
     (let n = (of_char c :: nat)
      in if 97 \<le> n \<and> n \<le> 122 then [char_of (n - 32)]
         else if n = 223 then ''SS''
         else if 224 \<le> n \<and> n \<le> 254 \<and> n \<noteq> 247 then [char_of (n - 32)]
         else [c])"

definition upper :: "string \<Rightarrow> string" where
  "upper s = concat (map upper_char s)"

text \<open>\<open>needle in haystack\<close> for strings, and \<open>s.startswith(p)\<close>.\<close>

fun str_in :: "string \<Rightarrow> string \<Rightarrow> bool" where
  "str_in needle [] = (needle = [])"
| "str_in needle (c # cs) = (take (length needle) (c # cs) = needle \<or> str_in needle cs)"

definition startswith :: "string \<Rightarrow> string \<Rightarrow> bool" where
  "startswith s p = (take (length p) s = p)"

text \<open>The truth value of an optional string: \<open>None\<close> and \<open>""\<close> are false.\<close>

fun truthy :: "string option \<Rightarrow> bool" where
  "truthy None = False"
| "truthy (Some s) = (s \<noteq> [])"

section \<open>The random module\<close>

text \<open>
  The generator is an arbitrary sequence of raw draws; each call of the \<open>random\<close>
  module consumes the next draw and reduces it to the range the call asks for, so
  every outcome the call can have is the outcome for some sequence.
\<close>

type_synonym rng = "nat \<Rightarrow> nat"

definition draw :: "rng \<Rightarrow> nat \<times> rng" where
  "draw rnd = (rnd 0, \<lambda>k. rnd (Suc k))"

definition random_choice :: "rng \<Rightarrow> 'a list \<Rightarrow> error + 'a \<times> rng" where
  "random_choice rnd seq =
     (if seq = [] then Inl IndexError
      else (case draw rnd of (u, rnd') \<Rightarrow> Inr (seq ! (u mod length seq), rnd')))"

text \<open>
  \<open>random.choices(population, weights=weights)[0]\<close> with integer weights: the draw
  is reduced below the total weight and falls into the first item whose cumulative
  weight exceeds it.
\<close>

fun pick_weighted :: "'a list \<Rightarrow> nat list \<Rightarrow> nat \<Rightarrow> 'a option" where
  "pick_weighted (x # xs) (w # ws) u = (if u < w then Some x else pick_weighted xs ws (u - w))"
| "pick_weighted _ _ u = None"

definition random_choices1 :: "rng \<Rightarrow> 'a list \<Rightarrow> nat list \<Rightarrow> error + 'a \<times> rng" where
  "random_choices1 rnd population weights =
     (if length weights \<noteq> length population then
        Inl (ValueError ''The number of weights does not match the population'')
      else if sum_list weights = 0 then
        Inl (ValueError ''Total of weights must be greater than zero'')
      else (case draw rnd of (u, rnd') \<Rightarrow>
        (case pick_weighted population weights (u mod sum_list weights) of
           None \<Rightarrow> Inl IndexError
         | Some x \<Rightarrow> Inr (x, rnd'))))"

text \<open>\<open>random.randint(a, b)\<close>; the code calls it with constants \<open>a \<le> b\<close> only.\<close>

definition random_randint :: "rng \<Rightarrow> nat \<Rightarrow> nat \<Rightarrow> nat \<times> rng" where
  "random_randint rnd a b = (case draw rnd of (u, rnd') \<Rightarrow> (a + u mod (b - a + 1), rnd'))"

text \<open>\<open>''.join([str(random.randint(0, 9)) for _ in range(n)])\<close>\<close>

fun random_digit_string :: "nat \<Rightarrow> rng \<Rightarrow> string \<times> rng" where
  "random_digit_string 0 rnd = ([], rnd)"
| "random_digit_string (Suc n) rnd =
     (case random_randint rnd 0 9 of (d, rnd') \<Rightarrow>
        (case random_digit_string n rnd' of (s, rnd'') \<Rightarrow> (str_nat d @ s, rnd'')))"

section \<open>card\_generator.py: data\<close>

text \<open>
  The rows of the two tables the module reads (field \<open>bd_brand\<close> is the column
  \<open>BinData.brand\<close>, \<open>bb_reason\<close> is \<open>BlockedBin.reason\<close>); a nullable column is an option. The
  database session is the content of the two tables, and
  \<open>db.query(T).filter(T.bin == p).first()\<close> is the first row with that \<open>bin\<close>.
\<close>

record BinData =
  bd_bin :: string
  bd_brand :: "string option"
  bd_issuer :: "string option"
  bd_type :: "string option"
  bd_country_code :: "string option"
  bd_country_name :: "string option"

record BlockedBin =
  bb_bin :: string
  bb_reason :: string

record Session =
  tbl_blocked_bins :: "BlockedBin list"
  tbl_bin_data :: "BinData list"

definition TEST_BINS :: "string list" where
  "TEST_BINS =
     [''411111'', ''555555'', ''378282'', ''378734'', ''371449'',
      ''601111'', ''630495'', ''630490'', ''360000'', ''305693'',
      ''385200'', ''601100'', ''353011'', ''356600'']"

definition AVS_POSTAL_CODES :: "(string \<times> string list) list" where
  "AVS_POSTAL_CODES =
     [(''US'', [''10001'', ''90210'', ''60601'', ''94102'', ''33101'']),
      (''IT'', [''00100'', ''20100'', ''80100'', ''40100'', ''50100'']),
      (''GB'', [''SW1A 1AA'', ''M1 1AA'', ''B1 1AA'', ''L1 1AA'', ''CF1 1AA'']),
      (''CA'', [''M5H 2N2'', ''V6B 1A1'', ''T2P 1J9'', ''H2Y 1A6'', ''K1A 0A6'']),
      (''AU'', [''2000'', ''3000'', ''4000'', ''5000'', ''6000'']),
      (''DE'', [''10115'', ''20095'', ''80331'', ''50667'', ''01067'']),
      (''FR'', [''75001'', ''69001'', ''13001'', ''31000'', ''59000''])]"

section \<open>card\_generator.py: validate\_bin\<close>

definition validate_bin :: "string \<Rightarrow> Session \<Rightarrow> bool \<times> string \<times> BinData option" where
  "validate_bin bin_input db =
     (let bin_str = strip bin_input
      in if length bin_str < 6 then (False, ''BIN must be at least 6 digits'', None)
         else
           (let bin_prefix = take 6 bin_str
            in if bin_prefix \<in> set TEST_BINS then
                 (False, ''Test BIN blocked - use production BINs only'', None)
               else
                 (case find (\<lambda>b. bb_bin b = bin_prefix) (tbl_blocked_bins db) of
                    Some blocked \<Rightarrow> (False, ''BIN blocked: '' @ bb_reason blocked, None)
                  | None \<Rightarrow>
                      (case find (\<lambda>b. bd_bin b = bin_prefix) (tbl_bin_data db) of
                         None \<Rightarrow> (False, ''BIN not found in database'', None)
                       | Some row \<Rightarrow> (True, ''Valid BIN'', Some row)))))"

section \<open>card\_generator.py: get\_card\_length\<close>

text \<open>
  \<open>brand.upper() if brand else ""\<close>, and the test
  \<open>card_type and "PREPAID" in card_type.upper()\<close> that \<open>get_card_length\<close> and
  \<open>generate_expiry\<close> both make.
\<close>

definition brand_upper_of :: "string option \<Rightarrow> string" where
  "brand_upper_of brand = (case brand of None \<Rightarrow> [] | Some b \<Rightarrow> if b \<noteq> [] then upper b else [])"

definition is_prepaid :: "string option \<Rightarrow> bool" where
  "is_prepaid card_type =
     (case card_type of None \<Rightarrow> False | Some t \<Rightarrow> t \<noteq> [] \<and> str_in ''PREPAID'' (upper t))"

definition get_card_length :: "rng \<Rightarrow> string option \<Rightarrow> string option \<Rightarrow> error + nat \<times> rng" where
  "get_card_length rnd brand card_type =
     (let brand_upper = brand_upper_of brand
      in if str_in ''AMERICAN EXPRESS'' brand_upper \<or> str_in ''AMEX'' brand_upper then Inr (15, rnd)
         else if str_in ''DINERS'' brand_upper then random_choice rnd [14, 16]
         else if str_in ''DISCOVER'' brand_upper then random_choice rnd [16, 19]
         else if is_prepaid card_type then Inr (16, rnd)
         else Inr (16, rnd))"

section \<open>card\_generator.py: name lookup\<close>

text \<open>
  A comprehension has a scope of its own, in which only its loop variable is local.
  Any other name is looked up in the enclosing function, where it must be a local
  variable or a parameter of that function, and otherwise among the names bound at
  module level. \<open>create_card_number\<close> and \<open>format_card_display\<close> bind no
  variable \<open>i\<close>, so the \<open>i\<close> of their comprehensions (whose loop variable is \<open>_\<close>)
  is a module-level lookup. The module binds the names of \<open>module_globals\<close>: its
  imports, its two tables and its functions. (Builtins are left out: no builtin is
  called \<open>i\<close>, the only name the model looks up.)
\<close>

datatype pyobj = IntObj int | NamedObj string

definition module_globals :: "string list" where
  "module_globals =
     [''random'', ''hashlib'', ''datetime'', ''timedelta'', ''Dict'', ''List'', ''Optional'',
      ''Tuple'', ''Session'', ''BinData'', ''BlockedBin'', ''get_redis'', ''TEST_BINS'',
      ''AVS_POSTAL_CODES'', ''validate_bin'', ''get_card_length'', ''luhn_checksum'',
      ''create_card_number'', ''generate_cvv'', ''generate_expiry'',
      ''generate_avs_postal_code'', ''format_card_display'', ''generate_test_card'']"

definition load_global :: "string \<Rightarrow> error + pyobj" where
  "load_global name =
     (if name \<in> set module_globals then Inr (NamedObj name)
      else Inl (NameError name))"

text \<open>Sets and dicts cannot be dictionary keys.\<close>

definition hashable :: "pyobj \<Rightarrow> bool" where
  "hashable k = (k \<noteq> NamedObj ''TEST_BINS'' \<and> k \<noteq> NamedObj ''AVS_POSTAL_CODES'')"

definition dict_get :: "(pyobj \<rightharpoonup> nat) \<Rightarrow> pyobj \<Rightarrow> error + nat" where
  "dict_get d k = (case d k of None \<Rightarrow> Inl KeyError | Some v \<Rightarrow> Inr v)"

text \<open>\<open>s[k]\<close>, \<open>k + c\<close> and \<open>s[a:b]\<close> for a looked-up \<open>k\<close>.\<close>

definition py_index :: "string \<Rightarrow> pyobj \<Rightarrow> error + char" where
  "py_index s k =
     (case k of
        NamedObj _ \<Rightarrow> Inl TypeError
      | IntObj i \<Rightarrow>
          if 0 \<le> i \<and> i < int (length s) then Inr (s ! nat i)
          else if i < 0 \<and> - int (length s) \<le> i then Inr (s ! nat (int (length s) + i))
          else Inl IndexError)"

definition py_add :: "pyobj \<Rightarrow> int \<Rightarrow> error + pyobj" where
  "py_add k c = (case k of NamedObj _ \<Rightarrow> Inl TypeError | IntObj i \<Rightarrow> Inr (IntObj (i + c)))"

definition py_slice :: "string \<Rightarrow> pyobj \<Rightarrow> pyobj \<Rightarrow> error + string" where
  "py_slice s a b =
     (case (a, b) of
        (IntObj i, IntObj j) \<Rightarrow>
          (let n = int (length s);
               lo = (if i < 0 then max 0 (n + i) else min i n);
               hi = (if j < 0 then max 0 (n + j) else min j n)
           in Inr (take (nat (hi - lo)) (drop (nat lo) s)))
      | _ \<Rightarrow> Inl TypeError)"

text \<open>
  \<open>any(body for _ in range(n))\<close> for a body that does not mention the loop variable:
  the body is evaluated once per item until it is true or raises.
\<close>

fun py_any :: "nat \<Rightarrow> (error + bool) \<Rightarrow> error + bool" where
  "py_any 0 body = Inr False"
| "py_any (Suc n) body =
     (case body of Inl e \<Rightarrow> Inl e | Inr True \<Rightarrow> Inr True | Inr False \<Rightarrow> py_any n body)"

section \<open>card\_generator.py: create\_card\_number\<close>

definition weights :: "nat list" where
  "weights = [2, 2, 2, 2, 2, 2, 1, 1, 1, 1]"

definition digit_choices :: "nat list" where
  "digit_choices = [0..<10]"

text \<open>\<open>digit_counts = {i: 0 for _ in range(10)}\<close>, one item of \<open>range(10)\<close> at a time.\<close>

fun init_digit_counts :: "nat list \<Rightarrow> (pyobj \<rightharpoonup> nat) \<Rightarrow> error + (pyobj \<rightharpoonup> nat)" where
  "init_digit_counts [] digit_counts = Inr digit_counts"
| "init_digit_counts (_ # items) digit_counts =
     (case load_global ''i'' of
        Inl e \<Rightarrow> Inl e
      | Inr k \<Rightarrow>
          if hashable k then init_digit_counts items (digit_counts(k \<mapsto> 0))
          else Inl TypeError)"

text \<open>\<open>[d for d in digit_choices if digit_counts[d] < 2]\<close>\<close>

fun alternatives_of :: "(pyobj \<rightharpoonup> nat) \<Rightarrow> nat list \<Rightarrow> error + nat list" where
  "alternatives_of digit_counts [] = Inr []"
| "alternatives_of digit_counts (d # ds) =
     (case dict_get digit_counts (IntObj (int d)) of
        Inl e \<Rightarrow> Inl e
      | Inr c \<Rightarrow>
          (case alternatives_of digit_counts ds of
             Inl e \<Rightarrow> Inl e
           | Inr rest \<Rightarrow> Inr (if c < 2 then d # rest else rest)))"

text \<open>The loop \<open>for _ in range(remaining_digits)\<close> that draws the digits.\<close>

fun generate_digits ::
  "nat \<Rightarrow> rng \<Rightarrow> (pyobj \<rightharpoonup> nat) \<Rightarrow> nat list \<Rightarrow> error + nat list \<times> rng" where
  "generate_digits 0 rnd digit_counts random_digits = Inr (random_digits, rnd)"
| "generate_digits (Suc n) rnd digit_counts random_digits =
     (case random_choices1 rnd digit_choices weights of
        Inl e \<Rightarrow> Inl e
      | Inr (digit, rnd1) \<Rightarrow>
          (case dict_get digit_counts (IntObj (int digit)) of
             Inl e \<Rightarrow> Inl e
           | Inr c \<Rightarrow>
               if c < 2 then
                 generate_digits n rnd1 (digit_counts(IntObj (int digit) \<mapsto> c + 1))
                   (random_digits @ [digit])
               else
                 (case alternatives_of digit_counts digit_choices of
                    Inl e \<Rightarrow> Inl e
                  | Inr alternatives \<Rightarrow>
                      if alternatives \<noteq> [] then
                        (case random_choices1 rnd1 alternatives
                                (map (\<lambda>d. weights ! d) alternatives) of
                           Inl e \<Rightarrow> Inl e
                         | Inr (alt_digit, rnd2) \<Rightarrow>
                             (case dict_get digit_counts (IntObj (int alt_digit)) of
                                Inl e \<Rightarrow> Inl e
                              | Inr c' \<Rightarrow>
                                  generate_digits n rnd2
                                    (digit_counts(IntObj (int alt_digit) \<mapsto> c' + 1))
                                    (random_digits @ [alt_digit])))
                      else
                        (case random_choice rnd1 digit_choices of
                           Inl e \<Rightarrow> Inl e
                         | Inr (d, rnd2) \<Rightarrow>
                             generate_digits n rnd2 digit_counts (random_digits @ [d])))))"

text \<open>\<open>''.join(map(str, random_digits))\<close>\<close>

definition join_digits :: "nat list \<Rightarrow> string" where
  "join_digits random_digits = concat (map str_nat random_digits)"

text \<open>
  The bodies of the three generator expressions of the pattern filter. A chained
  comparison and an \<open>and\<close> stop at the first false part.
\<close>

definition three_identical_at :: "string \<Rightarrow> error + bool" where
  "three_identical_at digit_str =
     (case load_global ''i'' of Inl e \<Rightarrow> Inl e | Inr i \<Rightarrow>
      case py_index digit_str i of Inl e \<Rightarrow> Inl e | Inr a \<Rightarrow>
      case py_add i 1 of Inl e \<Rightarrow> Inl e | Inr i1 \<Rightarrow>
      case py_index digit_str i1 of Inl e \<Rightarrow> Inl e | Inr b \<Rightarrow>
      if a \<noteq> b then Inr False
      else
       (case py_add i 2 of Inl e \<Rightarrow> Inl e | Inr i2 \<Rightarrow>
        case py_index digit_str i2 of Inl e \<Rightarrow> Inl e | Inr c \<Rightarrow>
        Inr (b = c)))"

text \<open>\<open>int(digit_str[i + c])\<close>\<close>

definition digit_at :: "string \<Rightarrow> pyobj \<Rightarrow> int \<Rightarrow> error + int" where
  "digit_at digit_str i c =
     (case py_add i c of Inl e \<Rightarrow> Inl e | Inr k \<Rightarrow>
      case py_index digit_str k of Inl e \<Rightarrow> Inl e | Inr ch \<Rightarrow>
      case int_of_char ch of Inl e \<Rightarrow> Inl e | Inr d \<Rightarrow> Inr (int d))"

text \<open>
  \<open>int(s[i]) + step == int(s[i+1]) and int(s[i+1]) + step == int(s[i+2])\<close>, with
  \<open>step = 1\<close> for the ascending and \<open>step = -1\<close> for the descending scan.
\<close>

definition run_at :: "int \<Rightarrow> string \<Rightarrow> error + bool" where
  "run_at step digit_str =
     (case load_global ''i'' of Inl e \<Rightarrow> Inl e | Inr i \<Rightarrow>
      case py_index digit_str i of Inl e \<Rightarrow> Inl e | Inr ch \<Rightarrow>
      case int_of_char ch of Inl e \<Rightarrow> Inl e | Inr a \<Rightarrow>
      case load_global ''i'' of Inl e \<Rightarrow> Inl e | Inr i' \<Rightarrow>
      case digit_at digit_str i' 1 of Inl e \<Rightarrow> Inl e | Inr b \<Rightarrow>
      if int a + step \<noteq> b then Inr False
      else
       (case load_global ''i'' of Inl e \<Rightarrow> Inl e | Inr j \<Rightarrow>
        case digit_at digit_str j 1 of Inl e \<Rightarrow> Inl e | Inr b' \<Rightarrow>
        case load_global ''i'' of Inl e \<Rightarrow> Inl e | Inr j' \<Rightarrow>
        case digit_at digit_str j' 2 of Inl e \<Rightarrow> Inl e | Inr c \<Rightarrow>
        Inr (b' + step = c)))"

text \<open>
  Lines 133 to 157: the number without its check digit, and the three pattern flags
  (identical, ascending, descending). \<open>range(len(digit_str) - 2)\<close> is empty when the
  length is below 3.
\<close>

definition pattern_scan :: "string \<Rightarrow> nat list \<Rightarrow> error + string \<times> bool \<times> bool \<times> bool" where
  "pattern_scan bin_prefix random_digits =
     (let partial_number = bin_prefix @ join_digits random_digits;
          digit_str = join_digits random_digits;
          n = nat (int (length digit_str) - 2)
      in case py_any n (three_identical_at digit_str) of Inl e \<Rightarrow> Inl e
         | Inr has_three_identical \<Rightarrow>
        (case py_any n (run_at 1 digit_str) of Inl e \<Rightarrow> Inl e
         | Inr has_ascending \<Rightarrow>
        (case py_any n (run_at (- 1) digit_str) of Inl e \<Rightarrow> Inl e
         | Inr has_descending \<Rightarrow>
             Inr (partial_number, has_three_identical, has_ascending, has_descending))))"

text \<open>
  One pass of the loop \<open>for _ in range(max_attempts)\<close>: \<open>Some\<close> is the \<open>return\<close>
  of the pass, \<open>None\<close> the pass ending without it. \<open>range(remaining_digits)\<close> is
  empty for a count below 1.
\<close>

definition attempt :: "rng \<Rightarrow> string \<Rightarrow> int \<Rightarrow> error + string option \<times> rng" where
  "attempt rnd bin_prefix remaining_digits =
     (case init_digit_counts [0..<10] Map.empty of Inl e \<Rightarrow> Inl e
      | Inr digit_counts \<Rightarrow>
     (case generate_digits (nat remaining_digits) rnd digit_counts [] of Inl e \<Rightarrow> Inl e
      | Inr (random_digits, rnd1) \<Rightarrow>
     (case pattern_scan bin_prefix random_digits of Inl e \<Rightarrow> Inl e
      | Inr (partial_number, has_three_identical, has_ascending, has_descending) \<Rightarrow>
          if \<not> (has_three_identical \<or> has_ascending \<or> has_descending) then
            (case try_check_digits partial_number [0..<10] of
               Inl e \<Rightarrow> Inl e
             | Inr r \<Rightarrow> Inr (r, rnd1))
          else Inr (None, rnd1))))"

fun attempts :: "nat \<Rightarrow> rng \<Rightarrow> string \<Rightarrow> int \<Rightarrow> error + string option \<times> rng" where
  "attempts 0 rnd bin_prefix remaining_digits = Inr (None, rnd)"
| "attempts (Suc n) rnd bin_prefix remaining_digits =
     (case attempt rnd bin_prefix remaining_digits of
        Inl e \<Rightarrow> Inl e
      | Inr (Some full_number, rnd1) \<Rightarrow> Inr (Some full_number, rnd1)
      | Inr (None, rnd1) \<Rightarrow> attempts n rnd1 bin_prefix remaining_digits)"

definition max_attempts :: nat where
  "max_attempts = 100"

definition create_card_number :: "rng \<Rightarrow> string \<Rightarrow> BinData option \<Rightarrow> error + string \<times> rng" where
  "create_card_number rnd bin_prefix bin_info =
     (let brand = (case bin_info of None \<Rightarrow> Some [] | Some row \<Rightarrow> bd_brand row);
          card_type = (case bin_info of None \<Rightarrow> Some [] | Some row \<Rightarrow> bd_type row)
      in case get_card_length rnd brand card_type of Inl e \<Rightarrow> Inl e
         | Inr (target_length, rnd1) \<Rightarrow>
          (let bin_len = length bin_prefix;
               remaining_digits = int target_length - int bin_len - 1
           in case attempts max_attempts rnd1 bin_prefix remaining_digits of Inl e \<Rightarrow> Inl e
              | Inr (Some full_number, rnd2) \<Rightarrow> Inr (full_number, rnd2)
              | Inr (None, rnd2) \<Rightarrow>
                 (case random_digit_string (nat remaining_digits) rnd2 of
                    (random_part, rnd3) \<Rightarrow>
                      (let partial_number = bin_prefix @ random_part
                       in case try_check_digits partial_number [0..<10] of
                            Inl e \<Rightarrow> Inl e
                          | Inr (Some full_number) \<Rightarrow> Inr (full_number, rnd3)
                          | Inr None \<Rightarrow> Inr (partial_number @ ''0'', rnd3)))))"

section \<open>card\_generator.py: generate\_cvv\<close>

text \<open>
  The digest is a parameter: \<open>sha256_hexdigest s\<close> stands for
  \<open>hashlib.sha256(s.encode()).hexdigest()\<close>.
\<close>

definition generate_cvv ::
  "(string \<Rightarrow> string) \<Rightarrow> rng \<Rightarrow> string \<Rightarrow> string option \<Rightarrow> bool \<Rightarrow> string \<times> rng" where
  "generate_cvv sha256_hexdigest rnd card_number expiry seed =
     (let cvv_length =
            (if startswith card_number ''34'' \<or> startswith card_number ''37'' then 4 else 3 :: nat)
      in case (if seed then expiry else None) of
           Some e \<Rightarrow>
             if e \<noteq> [] then
               (let seed_string = card_number @ e;
                    hash_digest = sha256_hexdigest seed_string;
                    cvv = take cvv_length (filter isdigit hash_digest)
                in if length cvv = cvv_length then (cvv, rnd)
                   else random_digit_string cvv_length rnd)
             else random_digit_string cvv_length rnd
         | None \<Rightarrow> random_digit_string cvv_length rnd)"

section \<open>card\_generator.py: generate\_expiry\<close>

text \<open>
  A date is its proleptic Gregorian ordinal (day 1 is 0001-01-01), as
  \<open>date.toordinal\<close> gives it; the time of day plays no part, since only whole days
  are added and only month and year are printed. \<open>ord2ymd\<close> is the conversion of the
  \<open>datetime\<close> module from an ordinal to year, month and day.
\<close>

definition DAYS_IN_MONTH :: "nat list" where
  "DAYS_IN_MONTH = [0, 31, 28, 31, 30, 31, 30, 31, 31, 30, 31, 30, 31]"

definition DAYS_BEFORE_MONTH :: "nat list" where
  "DAYS_BEFORE_MONTH = [0, 0, 31, 59, 90, 120, 151, 181, 212, 243, 273, 304, 334]"

definition ord2ymd :: "nat \<Rightarrow> nat \<times> nat \<times> nat" where
  "ord2ymd ordinal =
     (let n = ordinal - 1;
          n400 = n div 146097; n = n mod 146097;
          n100 = n div 36524; n = n mod 36524;
          n4 = n div 1461; n = n mod 1461;
          n1 = n div 365; n = n mod 365;
          year = n400 * 400 + 1 + n100 * 100 + n4 * 4 + n1
      in if n1 = 4 \<or> n100 = 4 then (year - 1, 12, 31)
         else
           (let leapyear = (n1 = 3 \<and> (n4 \<noteq> 24 \<or> n100 = 3));
                month = (n + 50) div 32;
                preceding = DAYS_BEFORE_MONTH ! month + (if month > 2 \<and> leapyear then 1 else 0)
            in if preceding > n then
                 (let month' = month - 1;
                      preceding' = preceding
                        - (DAYS_IN_MONTH ! month' + (if month' = 2 \<and> leapyear then 1 else 0))
                  in (year, month', n - preceding' + 1))
               else (year, month, n - preceding + 1)))"

text \<open>The last day a \<open>datetime\<close> can hold is 9999-12-31.\<close>

definition MAX_ORDINAL :: nat where
  "MAX_ORDINAL = 3652059"

text \<open>\<open>current_date + timedelta(days=days)\<close>\<close>

definition add_days :: "nat \<Rightarrow> nat \<Rightarrow> error + nat" where
  "add_days current_date days =
     (if current_date + days > MAX_ORDINAL then Inl OverflowError else Inr (current_date + days))"

text \<open>
  \<open>strftime("%m/%Y")\<close>: the month on two digits, a slash, the year (written in
  full, as it is for the years from 1000 on).
\<close>

definition strftime_mY :: "nat \<Rightarrow> string" where
  "strftime_mY date =
     (case ord2ymd date of (year, month, day) \<Rightarrow>
        (if month < 10 then ''0'' else []) @ str_nat month @ ''/'' @ str_nat year)"

definition generate_expiry :: "rng \<Rightarrow> nat \<Rightarrow> string option \<Rightarrow> error + string \<times> rng" where
  "generate_expiry rnd current_date card_type =
     (case (if is_prepaid card_type then random_randint rnd 12 24
            else random_randint rnd 36 60) of
        (months_to_add, rnd1) \<Rightarrow>
          (case add_days current_date (months_to_add * 30) of
             Inl e \<Rightarrow> Inl e
           | Inr expiry_date \<Rightarrow> Inr (strftime_mY expiry_date, rnd1)))"

section \<open>card\_generator.py: generate\_avs\_postal\_code\<close>

definition generate_avs_postal_code :: "rng \<Rightarrow> string \<Rightarrow> error + string option \<times> rng" where
  "generate_avs_postal_code rnd country_code =
     (case map_of AVS_POSTAL_CODES (upper country_code) of
        Some codes \<Rightarrow>
          (case random_choice rnd codes of Inl e \<Rightarrow> Inl e | Inr (c, rnd1) \<Rightarrow> Inr (Some c, rnd1))
      | None \<Rightarrow> Inr (None, rnd))"

section \<open>card\_generator.py: format\_card\_display\<close>

text \<open>
  \<open>[number[i:i+4] for _ in range(0, len(number), 4)]\<close>, one item of the range at a
  time; the range has \<open>(len(number) + 3) div 4\<close> items.
\<close>

fun number_groups :: "nat \<Rightarrow> string \<Rightarrow> error + string list" where
  "number_groups 0 number = Inr []"
| "number_groups (Suc k) number =
     (case load_global ''i'' of Inl e \<Rightarrow> Inl e | Inr i \<Rightarrow>
      case py_add i 4 of Inl e \<Rightarrow> Inl e | Inr i4 \<Rightarrow>
      case py_slice number i i4 of Inl e \<Rightarrow> Inl e | Inr g \<Rightarrow>
      case number_groups k number of Inl e \<Rightarrow> Inl e | Inr gs \<Rightarrow> Inr (g # gs))"

text \<open>\<open>' '.join(groups)\<close>\<close>

fun join_space :: "string list \<Rightarrow> string" where
  "join_space [] = []"
| "join_space [g] = g"
| "join_space (g # gs) = g @ '' '' @ join_space gs"

text \<open>The dictionary of the card, as the list of its items in insertion order.\<close>

definition format_card_display ::
  "string \<Rightarrow> string \<Rightarrow> string \<Rightarrow> BinData option \<Rightarrow> string option
    \<Rightarrow> error + (string \<times> string option) list" where
  "format_card_display number cvv expiry bin_info postal_code =
     (case (if length number = 15 then
              Inr (take 4 number @ '' '' @ take 6 (drop 4 number) @ '' '' @ drop 10 number)
            else
              (case number_groups ((length number + 3) div 4) number of
                 Inl e \<Rightarrow> Inl e
               | Inr groups \<Rightarrow> Inr (join_space groups))) of
        Inl e \<Rightarrow> Inl e
      | Inr formatted_number \<Rightarrow>
          Inr ([(''number'', Some formatted_number),
                (''cvv'', Some cvv),
                (''expiry'', Some expiry),
                (''bin'', Some (take 6 number))]
               @ (case bin_info of
                    None \<Rightarrow> []
                  | Some row \<Rightarrow>
                      [(''brand'', bd_brand row),
                       (''issuer'', bd_issuer row),
                       (''type'', bd_type row),
                       (''country'', bd_country_name row),
                       (''country_code'', bd_country_code row)])
               @ (if truthy postal_code then [(''postal_code'', postal_code)] else [])))"

section \<open>card\_generator.py: generate\_test\_card\<close>

definition generate_test_card ::
  "(string \<Rightarrow> string) \<Rightarrow> rng \<Rightarrow> nat \<Rightarrow> string \<Rightarrow> Session \<Rightarrow> bool \<Rightarrow> string option
    \<Rightarrow> error + (string \<times> string option) list \<times> rng" where
  "generate_test_card sha256_hexdigest rnd current_date bin_input db include_avs avs_country =
     (case validate_bin bin_input db of
        (is_valid, message, bin_data) \<Rightarrow>
          if \<not> is_valid then Inl (ValueError message)
          else
            (case create_card_number rnd bin_input bin_data of Inl e \<Rightarrow> Inl e
             | Inr (card_number, rnd1) \<Rightarrow>
            (case generate_expiry rnd1 current_date
                    (case bin_data of None \<Rightarrow> None | Some row \<Rightarrow> bd_type row) of Inl e \<Rightarrow> Inl e
             | Inr (expiry, rnd2) \<Rightarrow>
            (case generate_cvv sha256_hexdigest rnd2 card_number (Some expiry) True of
               (cvv, rnd3) \<Rightarrow>
            (case (case (if include_avs then avs_country else None) of
                     None \<Rightarrow> Inr (None, rnd3)
                   | Some country \<Rightarrow>
                       if country = [] then Inr (None, rnd3)
                       else
                         (case generate_avs_postal_code rnd3 country of Inl e \<Rightarrow> Inl e
                          | Inr (postal_code, rnd4) \<Rightarrow>
                              if \<not> truthy postal_code then
                                Inl (ValueError (''AVS not supported for country: '' @ country))
                              else Inr (postal_code, rnd4))) of Inl e \<Rightarrow> Inl e
             | Inr (postal_code, rnd4) \<Rightarrow>
            (case format_card_display card_number cvv expiry bin_data postal_code of
               Inl e \<Rightarrow> Inl e
             | Inr card_data \<Rightarrow> Inr (card_data, rnd4)))))))"


section \<open>rate\_limiter.py: configuration\<close>

text \<open>\<open>str(n)\<close> for an integer.\<close>

definition str_int :: "int \<Rightarrow> string" where
  "str_int n = (if n < 0 then ''-'' @ str_nat (nat (- n)) else str_nat (nat n))"

record rate_limit_config =
  cfg_requests :: int
  cfg_window :: int
  cfg_burst :: int

definition rate_limits :: "(string \<times> rate_limit_config) list" where
  "rate_limits =
     [(''default'', \<lparr>cfg_requests = 60, cfg_window = 60, cfg_burst = 10\<rparr>),
      (''bin_lookup'', \<lparr>cfg_requests = 100, cfg_window = 60, cfg_burst = 15\<rparr>),
      (''card_generation'', \<lparr>cfg_requests = 20, cfg_window = 60, cfg_burst = 5\<rparr>),
      (''crypto_check'', \<lparr>cfg_requests = 30, cfg_window = 60, cfg_burst = 8\<rparr>),
      (''auth'', \<lparr>cfg_requests = 10, cfg_window = 300, cfg_burst = 3\<rparr>),
      (''webhook'', \<lparr>cfg_requests = 1000, cfg_window = 60, cfg_burst = 50\<rparr>),
      (''premium'', \<lparr>cfg_requests = 500, cfg_window = 60, cfg_burst = 50\<rparr>)]"

text \<open>\<open>self.rate_limits.get(action, self.rate_limits["default"])\<close>\<close>

definition rate_limit_config_of :: "string \<Rightarrow> rate_limit_config" where
  "rate_limit_config_of action =
     (case map_of rate_limits action of
        Some c \<Rightarrow> c
      | None \<Rightarrow> \<lparr>cfg_requests = 60, cfg_window = 60, cfg_burst = 10\<rparr>)"

text \<open>
  The multipliers are the floats \<open>1.0, 2.0, 4.0, 8.0, 16.0\<close>; each is a whole number
  and \<open>int(60 * multiplier)\<close> is exact, so the model keeps them as integers.
\<close>

definition penalty_multipliers :: "(int \<times> int) list" where
  "penalty_multipliers = [(1, 1), (2, 2), (3, 4), (4, 8), (5, 16)]"

definition calculate_penalty_delay :: "int \<Rightarrow> int" where
  "calculate_penalty_delay violation_count =
     (let multiplier =
            (case map_of penalty_multipliers
                    (min violation_count (Max (set (map fst penalty_multipliers)))) of
               Some m \<Rightarrow> m
             | None \<Rightarrow> 16)
      in 60 * multiplier)"

section \<open>rate\_limiter.py: the request and its identifier\<close>

text \<open>
  What the limiter reads of a request: its headers (by lower-case name) and the host
  of \<open>request.client\<close>, which is \<open>None\<close> when the request has no client.
\<close>

record Request =
  req_headers :: "string \<rightharpoonup> string"
  req_client_host :: "string option"

text \<open>\<open>s.split(",")[0]\<close>: the part before the first comma.\<close>

definition before_comma :: "string \<Rightarrow> string" where
  "before_comma s = takeWhile (\<lambda>c. c \<noteq> CHR '','') s"

text \<open>\<open>a or b\<close> where \<open>a\<close> is an optional string and \<open>b\<close> a string.\<close>

definition py_or :: "string option \<Rightarrow> string \<Rightarrow> string" where
  "py_or a b = (case a of None \<Rightarrow> b | Some s \<Rightarrow> if s \<noteq> [] then s else b)"

text \<open>
  The identifier of a request without a user id. \<open>hash_fn\<close> stands for the builtin
  \<open>hash\<close> on strings. In the expression for \<open>ip\<close> the conditional binds weaker
  than \<open>or\<close>: without a client the result is \<open>"unknown"\<close>, whatever the headers
  say.
\<close>

definition ip_identifier :: "(string \<Rightarrow> int) \<Rightarrow> Request \<Rightarrow> string" where
  "ip_identifier hash_fn request =
     (let ip =
            (case req_client_host request of
               None \<Rightarrow> ''unknown''
             | Some host \<Rightarrow>
                 py_or (req_headers request ''cf-connecting-ip'')
                   (py_or (Some (strip (before_comma
                             (case req_headers request ''x-forwarded-for'' of
                                None \<Rightarrow> [] | Some v \<Rightarrow> v))))
                     (py_or (req_headers request ''x-real-ip'') host)));
          user_agent = take 50 (case req_headers request ''user-agent'' of
                                  None \<Rightarrow> [] | Some v \<Rightarrow> v)
      in ''ip:'' @ ip @ '':ua:'' @ str_int (hash_fn user_agent mod 10000))"

definition get_client_identifier :: "(string \<Rightarrow> int) \<Rightarrow> Request \<Rightarrow> int option \<Rightarrow> string" where
  "get_client_identifier hash_fn request user_id =
     (case user_id of
        None \<Rightarrow> ip_identifier hash_fn request
      | Some u \<Rightarrow> if u \<noteq> 0 then ''user:'' @ str_int u else ip_identifier hash_fn request)"

definition get_rate_limit_key :: "string \<Rightarrow> string \<Rightarrow> string" where
  "get_rate_limit_key identifier action = ''rate_limit:'' @ action @ '':'' @ identifier"

definition get_violation_key :: "string \<Rightarrow> string" where
  "get_violation_key identifier = ''violations:'' @ identifier"

section \<open>rate\_limiter.py: the two stores\<close>

text \<open>
  \<open>memory_store\<close> is one dictionary: under a rate-limit key it holds a list of
  timestamps, under a violation key a count.
\<close>

datatype store_value = Timestamps "int list" | Count int

text \<open>
  The Redis server, as far as the limiter uses it: its keys with their values, as
  association lists with one entry per key. A sorted set of the limiter only ever
  receives members \<open>str(t)\<close> with score \<open>t\<close>, so it is the list of its scores,
  without duplicates. A key with a time to live is gone once that time is reached; the
  server's clock is the caller's. With \<open>rd_down\<close> every command raises.
\<close>

record Redis =
  rd_zsets :: "(string \<times> int list) list"
  rd_counters :: "(string \<times> int) list"
  rd_expires :: "(string \<times> int) list"
  rd_down :: bool

definition put :: "string \<Rightarrow> 'v \<Rightarrow> (string \<times> 'v) list \<Rightarrow> (string \<times> 'v) list" where
  "put key v entries = (key, v) # filter (\<lambda>entry. fst entry \<noteq> key) entries"

definition remove :: "string \<Rightarrow> (string \<times> 'v) list \<Rightarrow> (string \<times> 'v) list" where
  "remove key entries = filter (\<lambda>entry. fst entry \<noteq> key) entries"

definition redis_expunge :: "int \<Rightarrow> Redis \<Rightarrow> Redis" where
  "redis_expunge now r =
     (let dead = map fst (filter (\<lambda>entry. snd entry \<le> now) (rd_expires r))
      in r\<lparr>rd_zsets := filter (\<lambda>entry. fst entry \<notin> set dead) (rd_zsets r),
           rd_counters := filter (\<lambda>entry. fst entry \<notin> set dead) (rd_counters r),
           rd_expires := filter (\<lambda>entry. fst entry \<notin> set dead) (rd_expires r)\<rparr>)"

text \<open>\<open>EXPIRE key seconds\<close>: only an existing key gets a time to live.\<close>

definition redis_expire :: "int \<Rightarrow> string \<Rightarrow> int \<Rightarrow> Redis \<Rightarrow> Redis" where
  "redis_expire now key seconds r =
     (if map_of (rd_zsets r) key = None \<and> map_of (rd_counters r) key = None then r
      else r\<lparr>rd_expires := put key (now + seconds) (rd_expires r)\<rparr>)"

text \<open>
  The pipeline of \<open>_get_current_usage\<close>:
  \<open>zremrangebyscore(key, 0, now - window)\<close>, \<open>zcard(key)\<close>, \<open>expire(key, window)\<close>.
  A sorted set that loses its last member is deleted, with its time to live.
\<close>

definition redis_usage_pipeline :: "int \<Rightarrow> string \<Rightarrow> int \<Rightarrow> Redis \<Rightarrow> error + int \<times> Redis" where
  "redis_usage_pipeline now key window r =
     (if rd_down r then Inl RedisError
      else
        (let r1 = redis_expunge now r;
             members = (case map_of (rd_zsets r1) key of None \<Rightarrow> [] | Some ms \<Rightarrow> ms);
             kept = filter (\<lambda>score. \<not> (0 \<le> score \<and> score \<le> now - window)) members;
             r2 = (if kept = [] then
                     r1\<lparr>rd_zsets := remove key (rd_zsets r1),
                        rd_expires := remove key (rd_expires r1)\<rparr>
                   else r1\<lparr>rd_zsets := put key kept (rd_zsets r1)\<rparr>)
         in Inr (int (length kept), redis_expire now key window r2)))"

text \<open>The pipeline of \<open>_record_request\<close>: \<open>zadd(key, {str(now): now})\<close>, \<open>expire(key, window)\<close>.\<close>

definition redis_record_pipeline :: "int \<Rightarrow> string \<Rightarrow> int \<Rightarrow> Redis \<Rightarrow> error + Redis" where
  "redis_record_pipeline now key window r =
     (if rd_down r then Inl RedisError
      else
        (let r1 = redis_expunge now r;
             members = (case map_of (rd_zsets r1) key of None \<Rightarrow> [] | Some ms \<Rightarrow> ms);
             members' = (if now \<in> set members then members else members @ [now]);
             r2 = r1\<lparr>rd_zsets := put key members' (rd_zsets r1)\<rparr>
         in Inr (redis_expire now key window r2)))"

text \<open>\<open>zcount(key, lo, hi)\<close>\<close>

definition redis_zcount :: "int \<Rightarrow> string \<Rightarrow> int \<Rightarrow> int \<Rightarrow> Redis \<Rightarrow> error + int" where
  "redis_zcount now key lo hi r =
     (if rd_down r then Inl RedisError
      else
        (case map_of (rd_zsets (redis_expunge now r)) key of
           None \<Rightarrow> Inr 0
         | Some ms \<Rightarrow> Inr (int (length (filter (\<lambda>score. lo \<le> score \<and> score \<le> hi) ms)))))"

text \<open>\<open>get(key)\<close> of a counter, and the pipeline \<open>incr(key)\<close>, \<open>expire(key, 3600)\<close>.\<close>

definition redis_get :: "int \<Rightarrow> string \<Rightarrow> Redis \<Rightarrow> error + int option" where
  "redis_get now key r =
     (if rd_down r then Inl RedisError
      else Inr (map_of (rd_counters (redis_expunge now r)) key))"

definition redis_violation_pipeline :: "int \<Rightarrow> string \<Rightarrow> Redis \<Rightarrow> error + Redis" where
  "redis_violation_pipeline now key r =
     (if rd_down r then Inl RedisError
      else
        (let r1 = redis_expunge now r;
             c = (case map_of (rd_counters r1) key of None \<Rightarrow> 0 | Some v \<Rightarrow> v);
             r2 = r1\<lparr>rd_counters := put key (c + 1) (rd_counters r1)\<rparr>
         in Inr (redis_expire now key 3600 r2)))"

text \<open>
  The limiter: its Redis client (\<open>None\<close> without a URL, or when the connection failed
  in the constructor) and its in-process store.
\<close>

record limiter =
  redis_client :: "Redis option"
  memory_store :: "string \<rightharpoonup> store_value"

text \<open>\<open>EnhancedRateLimiter()\<close>, the module's \<open>rate_limiter\<close>.\<close>

definition rate_limiter :: limiter where
  "rate_limiter = \<lparr>redis_client = None, memory_store = Map.empty\<rparr>"

text \<open>
  A call reads the clock, \<open>int(time.time())\<close>, in up to four places; \<open>clock\<close> holds
  what each of them reads: in \<open>_get_current_usage\<close>, in \<open>_memory_get_usage\<close>, in
  \<open>check_rate_limit\<close> before \<open>zcount\<close>, and in \<open>_record_request\<close>.
\<close>

record clock =
  t_usage :: int
  t_memory :: int
  t_burst :: int
  t_record :: int

section \<open>rate\_limiter.py: usage, recording, violations\<close>

definition memory_get_usage :: "int \<Rightarrow> string \<Rightarrow> int \<Rightarrow> limiter \<Rightarrow> error + (int \<times> int) \<times> limiter" where
  "memory_get_usage now key window lim =
     (if window = 0 then Inl ZeroDivisionError
      else
        (let window_start = now - (now mod window);
             store = (if memory_store lim key = None
                      then (memory_store lim)(key \<mapsto> Timestamps [])
                      else memory_store lim)
         in case store key of
              Some (Timestamps stamps) \<Rightarrow>
                (let kept = filter (\<lambda>timestamp. timestamp > now - window) stamps
                 in Inr ((int (length kept), window_start),
                         lim\<lparr>memory_store := store(key \<mapsto> Timestamps kept)\<rparr>))
            | _ \<Rightarrow> Inl TypeError))"

definition get_current_usage :: "clock \<Rightarrow> string \<Rightarrow> int \<Rightarrow> limiter \<Rightarrow> error + (int \<times> int) \<times> limiter" where
  "get_current_usage clk key window lim =
     (let now = t_usage clk
      in if window = 0 then Inl ZeroDivisionError
         else
           (let window_start = now - (now mod window)
            in case redis_client lim of
                 Some r \<Rightarrow>
                   (case redis_usage_pipeline now key window r of
                      Inr (current_count, r') \<Rightarrow>
                        Inr ((current_count, window_start), lim\<lparr>redis_client := Some r'\<rparr>)
                    | Inl e \<Rightarrow> memory_get_usage (t_memory clk) key window lim)
               | None \<Rightarrow> memory_get_usage (t_memory clk) key window lim))"

definition memory_record_request :: "string \<Rightarrow> int \<Rightarrow> limiter \<Rightarrow> error + limiter" where
  "memory_record_request key timestamp lim =
     (let store = (if memory_store lim key = None
                   then (memory_store lim)(key \<mapsto> Timestamps [])
                   else memory_store lim)
      in case store key of
           Some (Timestamps stamps) \<Rightarrow>
             Inr (lim\<lparr>memory_store := store(key \<mapsto> Timestamps (stamps @ [timestamp]))\<rparr>)
         | _ \<Rightarrow> Inl AttributeError)"

definition record_request :: "clock \<Rightarrow> string \<Rightarrow> int \<Rightarrow> limiter \<Rightarrow> error + limiter" where
  "record_request clk key window lim =
     (let now = t_record clk
      in case redis_client lim of
           Some r \<Rightarrow>
             (case redis_record_pipeline now key window r of
                Inr r' \<Rightarrow> Inr (lim\<lparr>redis_client := Some r'\<rparr>)
              | Inl e \<Rightarrow> memory_record_request key now lim)
         | None \<Rightarrow> memory_record_request key now lim)"

text \<open>
  The two functions on violations read no clock of their own; the Redis server's
  clock at their commands is the caller's last reading, \<open>t_burst\<close>. A list under the
  violation key would make the arithmetic on the count raise.
\<close>

definition get_violation_count :: "clock \<Rightarrow> string \<Rightarrow> limiter \<Rightarrow> error + int" where
  "get_violation_count clk identifier lim =
     (let violation_key = get_violation_key identifier
      in case redis_client lim of
           Some r \<Rightarrow>
             (case redis_get (t_burst clk) violation_key r of
                Inr (Some count) \<Rightarrow> Inr count
              | Inr None \<Rightarrow> Inr 0
              | Inl e \<Rightarrow> Inr 0)
         | None \<Rightarrow>
             (case memory_store lim violation_key of
                None \<Rightarrow> Inr 0
              | Some (Count c) \<Rightarrow> Inr c
              | Some (Timestamps stamps) \<Rightarrow> Inl TypeError))"

definition record_violation :: "clock \<Rightarrow> string \<Rightarrow> limiter \<Rightarrow> error + limiter" where
  "record_violation clk identifier lim =
     (let violation_key = get_violation_key identifier
      in case redis_client lim of
           Some r \<Rightarrow>
             (case redis_violation_pipeline (t_burst clk) violation_key r of
                Inr r' \<Rightarrow> Inr (lim\<lparr>redis_client := Some r'\<rparr>)
              | Inl e \<Rightarrow> Inr lim)
         | None \<Rightarrow>
             (case memory_store lim violation_key of
                None \<Rightarrow> Inr (lim\<lparr>memory_store := (memory_store lim)(violation_key \<mapsto> Count 1)\<rparr>)
              | Some (Count c) \<Rightarrow>
                  Inr (lim\<lparr>memory_store := (memory_store lim)(violation_key \<mapsto> Count (c + 1))\<rparr>)
              | Some (Timestamps stamps) \<Rightarrow> Inl TypeError))"

section \<open>rate\_limiter.py: check\_rate\_limit\<close>

text \<open>
  The dictionary a call returns, the \<open>HTTPException\<close> with status 429 it raises
  (the reason, \<open>retry_after\<close> and \<open>violation_count\<close> of its detail, and its headers
  \<open>X-RateLimit-Limit\<close>, \<open>X-RateLimit-Remaining\<close>, \<open>X-RateLimit-Reset\<close>;
  \<open>Retry-After\<close> repeats \<open>retry_after\<close>), or another exception. The log line of
  a violation is printed inside \<open>try\<close>/\<open>except\<close> and changes nothing; it is left out.
\<close>

record allowed =
  al_current_count :: int
  al_limit :: int
  al_window :: int
  al_remaining :: int
  al_reset_time :: int

record too_many_requests =
  tm_reason :: string
  tm_retry_after :: int
  tm_violation_count :: int
  tm_limit :: int
  tm_remaining :: int
  tm_reset :: int

datatype outcome = Returned allowed | HTTP_429 too_many_requests | Raised error

definition check_rate_limit ::
  "(string \<Rightarrow> int) \<Rightarrow> clock \<Rightarrow> Request \<Rightarrow> string \<Rightarrow> int option \<Rightarrow> limiter \<Rightarrow> outcome \<times> limiter" where
  "check_rate_limit hash_fn clk request action user_id lim =
     (let identifier = get_client_identifier hash_fn request user_id;
          rate_limit_config = rate_limit_config_of action;
          key = get_rate_limit_key identifier action;
          window = cfg_window rate_limit_config;
          limit = cfg_requests rate_limit_config;
          burst = cfg_burst rate_limit_config
      in case get_current_usage clk key window lim of
           Inl e \<Rightarrow> (Raised e, lim)
         | Inr ((current_count, window_start), lim1) \<Rightarrow>
             (let recent_requests =
                    (case redis_client lim1 of
                       None \<Rightarrow> 0
                     | Some r \<Rightarrow>
                         (let now = t_burst clk
                          in case redis_zcount now key (now - 60) now r of
                               Inr n \<Rightarrow> n
                             | Inl e \<Rightarrow> 0))
              in case get_violation_count clk identifier lim1 of
                   Inl e \<Rightarrow> (Raised e, lim1)
                 | Inr violation_count \<Rightarrow>
                     (let penalty_delay = calculate_penalty_delay violation_count
                      in if current_count \<ge> limit \<or> recent_requests \<ge> burst then
                           (let reason =
                                  (if current_count \<ge> limit then
                                     ''Rate limit exceeded: '' @ str_int current_count @ ''/''
                                       @ str_int limit @ '' requests per '' @ str_int window @ ''s''
                                   else
                                     ''Burst limit exceeded: '' @ str_int recent_requests @ ''/''
                                       @ str_int burst @ '' requests per minute'')
                            in case record_violation clk identifier lim1 of
                                 Inl e \<Rightarrow> (Raised e, lim1)
                               | Inr lim2 \<Rightarrow>
                                   (HTTP_429
                                      \<lparr>tm_reason = reason,
                                       tm_retry_after = penalty_delay,
                                       tm_violation_count = violation_count + 1,
                                       tm_limit = limit,
                                       tm_remaining = max 0 (limit - current_count),
                                       tm_reset = window_start + window\<rparr>, lim2))
                         else
                           (case record_request clk key window lim1 of
                              Inl e \<Rightarrow> (Raised e, lim1)
                            | Inr lim2 \<Rightarrow>
                                (Returned
                                   \<lparr>al_current_count = current_count + 1,
                                    al_limit = limit,
                                    al_window = window,
                                    al_remaining = max 0 (limit - current_count - 1),
                                    al_reset_time = window_start + window\<rparr>, lim2)))))"

section \<open>Auxiliary definitions of the proofs\<close>

text \<open>What the digits before the check digit contribute to the checksum.\<close>

definition luhn_rest :: "nat list \<Rightarrow> nat" where
  "luhn_rest ds = sum_list (every_second (drop 1 (rev ds)))
     + sum_list (map (\<lambda>d. sum_list (digits_of_nat (d * 2))) (every_second (rev ds)))"



text \<open>The whole number of calendar months from the month of one day to the month of another.\<close>

definition month_index :: "nat \<Rightarrow> int" where
  "month_index date = (case ord2ymd date of (year, month, day) \<Rightarrow> int year * 12 + int month - 1)"

definition months_ahead :: "nat \<Rightarrow> nat \<Rightarrow> int" where
  "months_ahead current_date expiry_date = month_index expiry_date - month_index current_date"

text \<open>
  A sequence of calls of \<open>check_rate_limit\<close> for one request, user id and action,
  one call per clock reading, each on the state the call before left.
\<close>

fun check_all ::
  "(string \<Rightarrow> int) \<Rightarrow> Request \<Rightarrow> string \<Rightarrow> int option \<Rightarrow> clock list \<Rightarrow> limiter
    \<Rightarrow> outcome list \<times> limiter" where
  "check_all hash_fn request action user_id [] lim = ([], lim)"
| "check_all hash_fn request action user_id (clk # clks) lim =
     (case check_rate_limit hash_fn clk request action user_id lim of
        (out, lim1) \<Rightarrow>
          (case check_all hash_fn request action user_id clks lim1 of
             (outs, lim2) \<Rightarrow> (out # outs, lim2)))"

definition admitted :: "outcome \<Rightarrow> bool" where
  "admitted out = (case out of Returned a \<Rightarrow> True | _ \<Rightarrow> False)"

definition denied :: "outcome \<Rightarrow> bool" where
  "denied out = (case out of HTTP_429 d \<Rightarrow> True | _ \<Rightarrow> False)"

definition retry_after_of :: "outcome \<Rightarrow> int option" where
  "retry_after_of out = (case out of HTTP_429 d \<Rightarrow> Some (tm_retry_after d) | _ \<Rightarrow> None)"

definition violation_count_of :: "outcome \<Rightarrow> int option" where
  "violation_count_of out = (case out of HTTP_429 d \<Rightarrow> Some (tm_violation_count d) | _ \<Rightarrow> None)"

definition reason_of :: "outcome \<Rightarrow> string option" where
  "reason_of out = (case out of HTTP_429 d \<Rightarrow> Some (tm_reason d) | _ \<Rightarrow> None)"

text \<open>A clock whose readings within one call are all the second \<open>t\<close>.\<close>

definition at_second :: "int \<Rightarrow> clock" where
  "at_second t = \<lparr>t_usage = t, t_memory = t, t_burst = t, t_record = t\<rparr>"

text \<open>A limiter connected to an empty Redis server.\<close>

definition redis_limiter :: limiter where
  "redis_limiter =
     \<lparr>redis_client = Some \<lparr>rd_zsets = [], rd_counters = [], rd_expires = [], rd_down = False\<rparr>,
      memory_store = Map.empty\<rparr>"

definition a_request :: Request where
  "a_request = \<lparr>req_headers = Map.empty, req_client_host = Some ''203.0.113.7''\<rparr>"

text \<open>
  What the in-process store holds for a limiter without Redis: the timestamps under a
  rate-limit key, and whether the two keys of an identity hold values of their kind.
\<close>

definition stamps_of :: "limiter \<Rightarrow> string \<Rightarrow> int list" where
  "stamps_of lim key = (case memory_store lim key of Some (Timestamps stamps) \<Rightarrow> stamps | _ \<Rightarrow> [])"

definition holds_stamps :: "limiter \<Rightarrow> string \<Rightarrow> bool" where
  "holds_stamps lim key = (case memory_store lim key of Some (Count c) \<Rightarrow> False | _ \<Rightarrow> True)"

definition holds_count :: "limiter \<Rightarrow> string \<Rightarrow> bool" where
  "holds_count lim key = (case memory_store lim key of Some (Timestamps stamps) \<Rightarrow> False | _ \<Rightarrow> True)"

definition count_of :: "limiter \<Rightarrow> string \<Rightarrow> int" where
  "count_of lim key = (case memory_store lim key of Some (Count c) \<Rightarrow> c | _ \<Rightarrow> 0)"

text \<open>
  The calendar behind \<open>ord2ymd\<close>: leap years, the number of days before a year, and
  the ordinal of the first day of the month with number \<open>k = 12 * year + month - 1\<close>.
\<close>

definition is_leap :: "nat \<Rightarrow> bool" where
  "is_leap y = (y mod 4 = 0 \<and> (y mod 100 \<noteq> 0 \<or> y mod 400 = 0))"

definition days_before_year :: "nat \<Rightarrow> nat" where
  "days_before_year y = (y - 1) * 365 + (y - 1) div 4 - (y - 1) div 100 + (y - 1) div 400"

definition days_before_month :: "nat \<Rightarrow> nat \<Rightarrow> nat" where
  "days_before_month y m = DAYS_BEFORE_MONTH ! m + (if m > 2 \<and> is_leap y then 1 else 0)"

definition month_start :: "nat \<Rightarrow> nat" where
  "month_start k = days_before_year (k div 12) + days_before_month (k div 12) (k mod 12 + 1) + 1"

section \<open>Verification: the checksum\<close>

lemma every_second_Cons: "every_second (x # xs) = x # every_second (drop 1 xs)"
  by (cases xs) simp_all

lemma fold_add_sum: "fold (\<lambda>d c. c + f d) xs (a::nat) = a + sum_list (map f xs)"
  by (induction xs arbitrary: a) simp_all

lemma digits_of_decimal:
  "list_all is_decimal s \<Longrightarrow> digits_of s = Inr (map (\<lambda>c. of_char c - 48) s)"
  by (induction s) (simp_all add: int_of_char_def)

lemma digits_of_append:
  "digits_of s = Inr ds \<Longrightarrow> digits_of t = Inr es \<Longrightarrow> digits_of (s @ t) = Inr (ds @ es)"
  by (induction s arbitrary: ds) (auto split: sum.splits)

lemma str_nat_digit: "d < 10 \<Longrightarrow> str_nat d = [char_of_digit d]"
  by (simp add: str_nat_def digits_of_nat.simps)

lemma digits_of_str_digit: "d < 10 \<Longrightarrow> digits_of (str_nat d) = Inr [d]"
  by (simp add: str_nat_digit int_of_char_def is_decimal_def char_of_digit_def)

lemma try_check_digits_find:
  assumes "\<forall>d\<in>set cs. luhn_checksum (p @ str_nat d) = Inr (P d)"
  shows "try_check_digits p cs = Inr (map_option (\<lambda>d. p @ str_nat d) (find P cs))"
  using assms by (induction cs) (simp_all add: Let_def)

lemma mod10_zero_small: "d < 10 \<Longrightarrow> m < 10 \<Longrightarrow> (d + m) mod 10 = 0 \<Longrightarrow> d + m = 0 \<or> d + m = (10::nat)"
  by arith

lemma unique_digit: "\<exists>!d::nat. d < 10 \<and> (d + k) mod 10 = 0"
proof -
  define m where "m = k mod 10"
  have m: "m < 10" by (simp add: m_def)
  have eq: "\<And>d. (d + k) mod 10 = (d + m) mod 10"
    by (simp add: m_def mod_add_right_eq)
  show ?thesis
  proof (rule ex1I [where a = "if m = 0 then 0 else 10 - m"])
    show "(if m = 0 then 0 else 10 - m) < 10 \<and> ((if m = 0 then 0 else 10 - m) + k) mod 10 = 0"
      using m by (simp add: eq)
  next
    fix d assume "d < 10 \<and> (d + k) mod 10 = 0"
    then have d: "d < 10" and dm: "(d + m) mod 10 = 0"
      by (simp_all add: eq)
    from dm d have "d + m = 0 \<or> d + m = 10"
      using m by (rule mod10_zero_small [rotated 2])
    with d show "d = (if m = 0 then 0 else 10 - m)" by auto
  qed
qed

lemma luhn_append_digit:
  assumes "digits_of p = Inr ds" "d < 10"
  shows "luhn_checksum (p @ str_nat d) = Inr ((d + luhn_rest ds) mod 10 = 0)"
proof -
  have "digits_of (p @ str_nat d) = Inr (ds @ [d])"
    using assms by (simp add: digits_of_append digits_of_str_digit)
  then show ?thesis
    by (simp add: luhn_checksum_def Let_def every_second_Cons fold_add_sum luhn_rest_def add.assoc)
qed

lemma find_first:
  "find P xs = Some d \<Longrightarrow> P d \<and> d \<in> set xs"
  by (induction xs) (auto split: if_splits)


lemma find_upt_witness:
  assumes "d0 < (10::nat)" "P d0"
  shows "\<exists>d1. find P [0..<10] = Some d1"
proof -
  have "d0 \<in> set [0..<10]" using assms(1) by (simp del: upt_Suc)
  with assms(2) have "\<exists>x. x \<in> set [0..<10] \<and> P x" by (intro exI conjI)
  then have "find P [0..<10] \<noteq> None" by (simp only: find_None_iff not_not)
  then show ?thesis by (simp only: not_None_eq)
qed

text \<open>
  C2: for a partial card number made of decimal digits, exactly one check digit
  \<open>0..9\<close> makes the checksum hold, and the loop over \<open>range(10)\<close> returns a number
  with that digit appended: it never runs out of candidates, so the final fallback of
  appending \<open>"0"\<close> is not reached.
\<close>

theorem luhn_check_digit_unique:
  assumes "list_all is_decimal partial_number"
  shows "(\<exists>!d. d < 10 \<and> luhn_checksum (partial_number @ str_nat d) = Inr True)
       \<and> (\<exists>d<10. try_check_digits partial_number [0..<10] = Inr (Some (partial_number @ str_nat d))
                \<and> luhn_checksum (partial_number @ str_nat d) = Inr True)"
proof -
  obtain ds where ds: "digits_of partial_number = Inr ds"
    using digits_of_decimal [OF assms] by (rule that)
  define k where "k = luhn_rest ds"
  have luhn: "\<And>d. d < 10 \<Longrightarrow> luhn_checksum (partial_number @ str_nat d) = Inr ((d + k) mod 10 = 0)"
    unfolding k_def by (rule luhn_append_digit [OF ds])
  from unique_digit [of k] obtain d0 where d0': "d0 < 10 \<and> (d0 + k) mod 10 = 0"
    and uniq': "\<forall>d. d < 10 \<and> (d + k) mod 10 = 0 \<longrightarrow> d = d0"
    unfolding Ex1_def by (elim exE conjE) (rule that, (rule conjI; assumption), assumption)
  from d0' have d0: "d0 < 10" "(d0 + k) mod 10 = 0" by simp_all
  have first: "\<exists>!d. d < 10 \<and> luhn_checksum (partial_number @ str_nat d) = Inr True"
  proof (rule ex1I [where a = d0])
    show "d0 < 10 \<and> luhn_checksum (partial_number @ str_nat d0) = Inr True"
      using d0 by (simp add: luhn)
  next
    fix d assume a: "d < 10 \<and> luhn_checksum (partial_number @ str_nat d) = Inr True"
    then have dl: "d < 10" and "luhn_checksum (partial_number @ str_nat d) = Inr True"
      by simp_all
    then have "(d + k) mod 10 = 0" using luhn [OF dl] by simp
    with dl have "d < 10 \<and> (d + k) mod 10 = 0" by (rule conjI)
    with uniq' show "d = d0" by (simp only:)
  qed
  have "\<forall>d\<in>set [0..<10]. luhn_checksum (partial_number @ str_nat d) = Inr ((d + k) mod 10 = 0)"
    by (simp add: luhn del: upt_Suc)
  then have loop: "try_check_digits partial_number [0..<10]
      = Inr (map_option (\<lambda>d. partial_number @ str_nat d) (find (\<lambda>d. (d + k) mod 10 = 0) [0..<10]))"
    by (rule try_check_digits_find)
  from find_upt_witness [of d0 "\<lambda>d. (d + k) mod 10 = 0", OF d0]
  obtain d1 where d1: "find (\<lambda>d. (d + k) mod 10 = 0) [0..<10] = Some d1" by (elim exE) (rule that)
  from find_first [OF d1] have d1p: "d1 < 10" "(d1 + k) mod 10 = 0" by (simp_all del: upt_Suc)
  have second: "d1 < 10 \<and> try_check_digits partial_number [0..<10] = Inr (Some (partial_number @ str_nat d1))
      \<and> luhn_checksum (partial_number @ str_nat d1) = Inr True"
    using d1p by (simp add: loop d1 luhn del: upt_Suc)
  show ?thesis
    by (rule conjI [OF first]) (rule exI [of _ d1], rule second)
qed

theorem luhn_check_digit_unique_witness:
  "list_all is_decimal ''424242123456789''
   \<and> ((\<exists>!d. d < 10 \<and> luhn_checksum (''424242123456789'' @ str_nat d) = Inr True)
       \<and> (\<exists>d<10. try_check_digits ''424242123456789'' [0..<10]
                     = Inr (Some (''424242123456789'' @ str_nat d))
                \<and> luhn_checksum (''424242123456789'' @ str_nat d) = Inr True))"
proof -
  have h: "list_all is_decimal ''424242123456789''"
    by (simp add: is_decimal_def)
  show ?thesis
    by (rule conjI [OF h luhn_check_digit_unique [OF h]])
qed

section \<open>Verification: the card number never comes back\<close>

lemma load_global_i: "load_global ''i'' = Inl (NameError ''i'')"
  by (simp add: load_global_def module_globals_def)

lemma init_digit_counts_raises:
  "init_digit_counts (x # xs) d = Inl (NameError ''i'')"
  by (simp add: load_global_i)

lemma attempt_raises: "attempt rnd bin_prefix remaining_digits = Inl (NameError ''i'')"
proof -
  have "[0..<10] = 0 # [1..<10]" by (simp add: upt_conv_Cons)
  then have "init_digit_counts [0..<10] Map.empty = Inl (NameError ''i'')"
    by (simp only: init_digit_counts_raises)
  then show ?thesis by (simp add: attempt_def)
qed

lemma attempts_raises: "attempts (Suc n) rnd bin_prefix remaining_digits = Inl (NameError ''i'')"
  by (simp add: attempt_raises)

lemma attempts_max_raises:
  "attempts max_attempts rnd bin_prefix remaining_digits = Inl (NameError ''i'')"
proof -
  have m: "max_attempts = Suc 99" by (simp add: max_attempts_def)
  show ?thesis unfolding m by (rule attempts_raises)
qed

lemma random_choice_Inr:
  "seq \<noteq> [] \<Longrightarrow> random_choice rnd seq = Inr (seq ! (rnd 0 mod length seq), \<lambda>k. rnd (Suc k))"
  by (simp add: random_choice_def draw_def)

lemma get_card_length_returns: "\<exists>l rnd'. get_card_length rnd brand card_type = Inr (l, rnd')"
  by (simp add: get_card_length_def Let_def random_choice_Inr)

lemma create_card_number_raises:
  "create_card_number rnd bin_prefix bin_info = Inl (NameError ''i'')"
proof -
  obtain l rnd' where
    "get_card_length rnd (case bin_info of None \<Rightarrow> Some [] | Some row \<Rightarrow> bd_brand row)
       (case bin_info of None \<Rightarrow> Some [] | Some row \<Rightarrow> bd_type row) = Inr (l, rnd')"
    using get_card_length_returns by blast
  then show ?thesis
    by (simp add: create_card_number_def Let_def attempts_max_raises)
qed

text \<open>
  C1: \<open>create_card_number\<close> never returns normally. The first pass of its attempt
  loop builds \<open>digit_counts\<close> with a comprehension whose key is the unbound name
  \<open>i\<close>, so the call raises \<open>NameError\<close> for every prefix, BIN record and outcome of
  the random draws; and \<open>generate_test_card\<close> raises for every input: the
  \<open>ValueError\<close> of a rejected BIN, or that \<open>NameError\<close> for a valid, unblocked BIN.
\<close>

theorem create_card_number_never_returns:
  "create_card_number rnd bin_prefix bin_info = Inl (NameError ''i'')
   \<and> generate_test_card sha256_hexdigest rnd current_date bin_input db include_avs avs_country
       = (if fst (validate_bin bin_input db) then Inl (NameError ''i'')
          else Inl (ValueError (fst (snd (validate_bin bin_input db)))))"
  by (simp add: create_card_number_raises generate_test_card_def split: prod.splits)

theorem create_card_number_never_returns_witness:
  "create_card_number (\<lambda>k. 3 * k + 1) ''424242''
       (Some \<lparr>bd_bin = ''424242'', bd_brand = Some ''VISA'', bd_issuer = Some ''BANK'',
              bd_type = Some ''CREDIT'', bd_country_code = Some ''US'',
              bd_country_name = Some ''UNITED STATES''\<rparr>) = Inl (NameError ''i'')
   \<and> generate_test_card (\<lambda>s. ''9f86d081884c7d65'') (\<lambda>k. 3 * k + 1) 738521 ''424242''
       \<lparr>tbl_blocked_bins = [],
        tbl_bin_data = [\<lparr>bd_bin = ''424242'', bd_brand = Some ''VISA'', bd_issuer = Some ''BANK'',
              bd_type = Some ''CREDIT'', bd_country_code = Some ''US'',
              bd_country_name = Some ''UNITED STATES''\<rparr>]\<rparr> False None
       = Inl (NameError ''i'')"
proof -
  let ?row = "\<lparr>bd_bin = ''424242'', bd_brand = Some ''VISA'', bd_issuer = Some ''BANK'',
              bd_type = Some ''CREDIT'', bd_country_code = Some ''US'',
              bd_country_name = Some ''UNITED STATES''\<rparr>"
  let ?db = "\<lparr>tbl_blocked_bins = [], tbl_bin_data = [?row]\<rparr>"
  have v: "validate_bin ''424242'' ?db = (True, ''Valid BIN'', Some ?row)"
    by (simp add: validate_bin_def strip_def is_space_def TEST_BINS_def)
  show ?thesis
    using create_card_number_never_returns
      [of "\<lambda>k. 3 * k + 1" "''424242''" "Some ?row" "\<lambda>s. ''9f86d081884c7d65''" 738521 "''424242''" ?db False None]
    by (simp add: v)
qed

section \<open>Verification: the classifier\<close>

lemma validate_bin_test_bin:
  "take 6 (strip bin_input) \<in> set TEST_BINS \<Longrightarrow>
   validate_bin bin_input db = (False, ''Test BIN blocked - use production BINs only'', None)"
  by (auto simp: validate_bin_def Let_def TEST_BINS_def)

lemma strip_378282: "strip ''378282'' = ''378282''"
  by (simp add: strip_def is_space_def)

lemma random_randint_digit: "fst (random_randint rnd 0 9) < 10"
  by (simp add: random_randint_def draw_def)

lemma length_random_digit_string: "length (fst (random_digit_string n rnd)) = n"
proof (induction n arbitrary: rnd)
  case 0
  show ?case by simp
next
  case (Suc n)
  obtain d rnd' where r: "random_randint rnd 0 9 = (d, rnd')" by (cases "random_randint rnd 0 9")
  with random_randint_digit [of rnd] have "d < 10" by simp
  then have "length (str_nat d) = 1" by (simp add: str_nat_digit)
  then show ?case using Suc [of rnd'] r by (auto split: prod.splits)
qed

lemma length_generate_cvv:
  "length (fst (generate_cvv sha256_hexdigest rnd card_number expiry seed))
     = (if startswith card_number ''34'' \<or> startswith card_number ''37'' then 4 else 3)"
  by (simp add: generate_cvv_def Let_def length_random_digit_string split: option.splits)

lemma get_card_length_amex:
  "str_in ''AMERICAN EXPRESS'' (brand_upper_of brand) \<or> str_in ''AMEX'' (brand_upper_of brand)
   \<Longrightarrow> get_card_length rnd brand card_type = Inr (15, rnd)"
  by (simp add: get_card_length_def)

text \<open>
  C5 (as amended): generation for the prefix 378282 is refused. The prefix is in
  \<open>TEST_BINS\<close>, so \<open>generate_test_card\<close> raises the \<open>ValueError\<close> of a blocked test
  BIN, whatever the database holds. The Amex rules themselves stand: the length rule
  gives 15 for every brand of the Amex family (a brand whose upper-case form contains
  \<open>AMERICAN EXPRESS\<close> or \<open>AMEX\<close>), whatever the card type and the random draws, and
  the CVV of a number that starts with 34 or 37 has 4 digits.
\<close>

theorem amex_test_bin_blocked:
  "generate_test_card sha256_hexdigest rnd current_date ''378282'' db include_avs avs_country
     = Inl (ValueError ''Test BIN blocked - use production BINs only'')
   \<and> (str_in ''AMERICAN EXPRESS'' (brand_upper_of brand) \<or> str_in ''AMEX'' (brand_upper_of brand)
        \<longrightarrow> get_card_length rnd brand card_type = Inr (15, rnd))
   \<and> (startswith card_number ''34'' \<or> startswith card_number ''37''
        \<longrightarrow> length (fst (generate_cvv sha256_hexdigest rnd card_number expiry seed)) = 4)
   \<and> length (fst (generate_cvv sha256_hexdigest rnd (''37'' @ rest) expiry seed)) = 4"
proof -
  have "validate_bin ''378282'' db = (False, ''Test BIN blocked - use production BINs only'', None)"
    by (rule validate_bin_test_bin) (simp add: strip_378282 TEST_BINS_def)
  then have a: "generate_test_card sha256_hexdigest rnd current_date ''378282'' db include_avs avs_country
     = Inl (ValueError ''Test BIN blocked - use production BINs only'')"
    by (simp add: generate_test_card_def)
  have c: "length (fst (generate_cvv sha256_hexdigest rnd (''37'' @ rest) expiry seed)) = 4"
    by (simp add: length_generate_cvv startswith_def)
  from a c show ?thesis
    by (simp add: get_card_length_amex length_generate_cvv)
qed

theorem amex_test_bin_blocked_counterexample:
  "generate_test_card (\<lambda>s. ''9f86d081884c7d65'') (\<lambda>k. k) 738521 ''378282''
     \<lparr>tbl_blocked_bins = [],
      tbl_bin_data = [\<lparr>bd_bin = ''378282'', bd_brand = Some ''AMERICAN EXPRESS'',
         bd_issuer = Some ''AMERICAN EXPRESS US'', bd_type = Some ''CREDIT'',
         bd_country_code = Some ''US'', bd_country_name = Some ''UNITED STATES''\<rparr>]\<rparr>
     False None
   = Inl (ValueError ''Test BIN blocked - use production BINs only'')"
  by (simp add: generate_test_card_def validate_bin_def strip_378282 TEST_BINS_def)

theorem amex_test_bin_blocked_witness:
  "generate_test_card (\<lambda>s. ''9f86d081884c7d65'') (\<lambda>k. 7) 738521 ''378282''
     \<lparr>tbl_blocked_bins = [], tbl_bin_data = []\<rparr> True (Some ''US'')
     = Inl (ValueError ''Test BIN blocked - use production BINs only'')
   \<and> str_in ''AMEX'' (brand_upper_of (Some ''Amex Centurion''))
   \<and> get_card_length (\<lambda>k. 7) (Some ''Amex Centurion'') (Some ''CREDIT'') = Inr (15, \<lambda>k. 7)
   \<and> startswith ''348282246310005'' ''34''
   \<and> length (fst (generate_cvv (\<lambda>s. ''9f86d081884c7d65'') (\<lambda>k. 7) ''348282246310005''
        (Some ''12/2027'') True)) = 4
   \<and> length (fst (generate_cvv (\<lambda>s. ''9f86d081884c7d65'') (\<lambda>k. 7) (''37'' @ ''8282246310005'')
        (Some ''12/2027'') True)) = 4"
proof -
  have b: "str_in ''AMEX'' (brand_upper_of (Some ''Amex Centurion''))" by code_simp
  have s: "startswith ''348282246310005'' ''34''" by (simp add: startswith_def)
  from amex_test_bin_blocked
    [of "\<lambda>s. ''9f86d081884c7d65''" "\<lambda>k. 7" 738521 "\<lparr>tbl_blocked_bins = [], tbl_bin_data = []\<rparr>"
        True "Some ''US''" "Some ''Amex Centurion''" "Some ''CREDIT''" "''348282246310005''"
        "Some ''12/2027''" True "''8282246310005''"]
  show ?thesis using b s by simp
qed

text \<open>
  C6 (as amended): \<open>validate_bin\<close> answers \<open>BIN must be at least 6 digits\<close> exactly
  when the trimmed input has fewer than 6 characters. It makes no other test of the
  format: a longer input is cut to its first six characters, and an input with a
  character that is no digit goes on to the block list and the database.
\<close>

theorem validate_bin_invalid_format:
  "(validate_bin bin_input db = (False, ''BIN must be at least 6 digits'', None))
     = (length (strip bin_input) < 6)"
  by (simp add: validate_bin_def Let_def split: option.splits)

theorem validate_bin_invalid_format_witness:
  "(validate_bin '' 4242 '' \<lparr>tbl_blocked_bins = [], tbl_bin_data = []\<rparr>
       = (False, ''BIN must be at least 6 digits'', None))
   \<and> length (strip '' 4242 '') < 6"
  using validate_bin_invalid_format [of "'' 4242 ''" "\<lparr>tbl_blocked_bins = [], tbl_bin_data = []\<rparr>"]
  by (simp add: strip_def is_space_def)

theorem validate_bin_invalid_format_counterexample:
  "length (strip ''4242429999'') > 8
   \<and> validate_bin ''4242429999''
        \<lparr>tbl_blocked_bins = [],
         tbl_bin_data = [\<lparr>bd_bin = ''424242'', bd_brand = Some ''VISA'', bd_issuer = None,
            bd_type = Some ''CREDIT'', bd_country_code = None, bd_country_name = None\<rparr>]\<rparr>
      = (True, ''Valid BIN'',
         Some \<lparr>bd_bin = ''424242'', bd_brand = Some ''VISA'', bd_issuer = None,
            bd_type = Some ''CREDIT'', bd_country_code = None, bd_country_name = None\<rparr>)
   \<and> length (strip ''42x242'') = 6 \<and> \<not> list_all is_decimal (strip ''42x242'')
   \<and> validate_bin ''42x242'' \<lparr>tbl_blocked_bins = [], tbl_bin_data = []\<rparr>
      = (False, ''BIN not found in database'', None)"
  by (simp add: validate_bin_def strip_def is_space_def TEST_BINS_def is_decimal_def)

section \<open>Verification: the pattern filter\<close>

lemma py_any_raises: "py_any (Suc n) (Inl e) = Inl e"
  by simp


lemma run_at_raises: "run_at step digit_str = Inl (NameError ''i'')"
  by (simp add: run_at_def load_global_i)




section \<open>Verification: the length rule\<close>

text \<open>
  C8 (as amended): the length is 15 for a brand of the Amex family and 16 for a brand
  that is neither Amex, Diners nor Discover, in both cases without a random draw. For
  a Diners brand it is 14 or 16 and for a Discover brand 16 or 19, chosen by
  \<open>random.choice\<close>: there the length depends on the draw and two calls may differ.
\<close>

theorem get_card_length_rule:
  "\<exists>l rnd'. get_card_length rnd brand card_type = Inr (l, rnd')
     \<and> (if str_in ''AMERICAN EXPRESS'' (brand_upper_of brand) \<or> str_in ''AMEX'' (brand_upper_of brand)
         then l = 15 \<and> rnd' = rnd
         else if str_in ''DINERS'' (brand_upper_of brand)
         then l = [14, 16] ! (rnd 0 mod 2)
         else if str_in ''DISCOVER'' (brand_upper_of brand)
         then l = [16, 19] ! (rnd 0 mod 2)
         else l = 16 \<and> rnd' = rnd)"
  by (simp add: get_card_length_def Let_def random_choice_Inr numeral_2_eq_2)

theorem get_card_length_rule_witness:
  "\<exists>l rnd'. get_card_length (\<lambda>k. 5) (Some ''Visa'') (Some ''debit'') = Inr (l, rnd')
     \<and> l = 16 \<and> rnd' = (\<lambda>k. 5)"
proof -
  have u: "brand_upper_of (Some ''Visa'') = ''VISA''"
    by code_simp
  show ?thesis
    using get_card_length_rule [of "\<lambda>k. 5" "Some ''Visa''" "Some ''debit''"]
    by (simp add: u)
qed

theorem get_card_length_rule_counterexample:
  "map_sum id fst (get_card_length (\<lambda>k. 0) (Some ''Diners Club'') (Some ''credit'')) = Inr 14
   \<and> map_sum id fst (get_card_length (\<lambda>k. 1) (Some ''Diners Club'') (Some ''credit'')) = Inr 16"
  by code_simp

section \<open>Verification: the expiry\<close>

lemma random_randint_range:
  "a \<le> b \<Longrightarrow> a \<le> fst (random_randint rnd a b) \<and> fst (random_randint rnd a b) \<le> b"
proof -
  assume ab: "a \<le> b"
  have "rnd 0 mod Suc (b - a) < Suc (b - a)" by (rule mod_less_divisor) simp
  then have "rnd 0 mod Suc (b - a) \<le> b - a" by simp
  with ab have "a + rnd 0 mod Suc (b - a) \<le> b" by arith
  then show ?thesis by (simp add: random_randint_def draw_def)
qed

lemma generate_expiry_date:
  assumes "current_date + 1800 \<le> MAX_ORDINAL"
  shows "\<exists>months_to_add rnd'.
           generate_expiry rnd current_date card_type
             = Inr (strftime_mY (current_date + months_to_add * 30), rnd')
         \<and> (if is_prepaid card_type then 12 \<le> months_to_add \<and> months_to_add \<le> 24
            else 36 \<le> months_to_add \<and> months_to_add \<le> 60)"
proof (cases "is_prepaid card_type")
  case True
  obtain m rnd' where r: "random_randint rnd 12 24 = (m, rnd')"
    by (cases "random_randint rnd 12 24")
  with random_randint_range [of 12 24 rnd] have m: "12 \<le> m" "m \<le> 24" by simp_all
  then have "current_date + m * 30 \<le> MAX_ORDINAL" using assms by simp
  then have "generate_expiry rnd current_date card_type
      = Inr (strftime_mY (current_date + m * 30), rnd')"
    using True r by (simp add: generate_expiry_def add_days_def)
  then show ?thesis using True m by auto
next
  case False
  obtain m rnd' where r: "random_randint rnd 36 60 = (m, rnd')"
    by (cases "random_randint rnd 36 60")
  with random_randint_range [of 36 60 rnd] have m: "36 \<le> m" "m \<le> 60" by simp_all
  then have "current_date + m * 30 \<le> MAX_ORDINAL" using assms by simp
  then have "generate_expiry rnd current_date card_type
      = Inr (strftime_mY (current_date + m * 30), rnd')"
    using False r by (simp add: generate_expiry_def add_days_def)
  then show ?thesis using False m by auto
qed

subsection \<open>The calendar of \<open>ord2ymd\<close>\<close>

lemma div_digits4: "e \<le> 3 \<Longrightarrow> (400 * a + 100 * b + 4 * c + e) div 4 = 100 * a + 25 * b + (c::nat)"
  by arith

lemma div_digits100: "c \<le> 24 \<Longrightarrow> e \<le> 3 \<Longrightarrow> (400 * a + 100 * b + 4 * c + e) div 100 = 4 * a + (b::nat)"
  by arith

lemma div_digits400: "b \<le> 3 \<Longrightarrow> c \<le> 24 \<Longrightarrow> e \<le> 3 \<Longrightarrow> (400 * a + 100 * b + 4 * c + e) div 400 = (a::nat)"
  by arith

lemma dby_digits:
  assumes "b \<le> 3" "c \<le> 24" "e \<le> 3"
  shows "days_before_year (400 * a + 100 * b + 4 * c + e + 1)
           = 146097 * a + 36524 * b + 1461 * c + 365 * e"
proof -
  have le: "4 * a + b \<le> 100 * a + 25 * b + c" by simp
  show ?thesis
    using assms le
    by (simp add: days_before_year_def div_digits4 div_digits100 div_digits400)
qed

lemma mod_by_parts: "(r + n * q) mod n = r mod (n::nat)"
  by simp

lemma mod4_digits: "(400 * a + 100 * b + 4 * c + e + 1) mod 4 = (e + 1) mod (4::nat)"
proof -
  have "400 * a + 100 * b + 4 * c + e + 1 = (e + 1) + 4 * (100 * a + 25 * b + c)" by simp
  then show ?thesis by (simp only: mod_by_parts)
qed

lemma mod100_digits: "(400 * a + 100 * b + 4 * c + e + 1) mod 100 = (4 * c + e + 1) mod (100::nat)"
proof -
  have "400 * a + 100 * b + 4 * c + e + 1 = (4 * c + e + 1) + 100 * (4 * a + b)" by simp
  then show ?thesis by (simp only: mod_by_parts)
qed

lemma mod400_digits:
  "(400 * a + 100 * b + 4 * c + e + 1) mod 400 = (100 * b + 4 * c + e + 1) mod (400::nat)"
proof -
  have "400 * a + 100 * b + 4 * c + e + 1 = (100 * b + 4 * c + e + 1) + 400 * a" by simp
  then show ?thesis by (simp only: mod_by_parts)
qed

lemma mod_zero_top: "1 \<le> x \<Longrightarrow> x \<le> n \<Longrightarrow> (x mod n = 0) = (x = (n::nat))"
proof -
  assume x: "1 \<le> x" "x \<le> n"
  show ?thesis
  proof (cases "x = n")
    case True then show ?thesis by simp
  next
    case False
    with x have "x < n" by simp
    then have "x mod n = x" by simp
    with x False show ?thesis by simp
  qed
qed

lemma is_leap_digits:
  assumes "b \<le> 3" "c \<le> 24" "e \<le> 3"
  shows "is_leap (400 * a + 100 * b + 4 * c + e + 1) = (e = 3 \<and> (c \<noteq> 24 \<or> b = 3))"
proof -
  have m4: "((e + 1) mod 4 = 0) = (e = 3)"
    using mod_zero_top [of "e + 1" 4] assms(3) by simp
  have "((4 * c + e + 1) mod 100 = 0) = (4 * c + e + 1 = 100)"
    using assms(2,3) by (intro mod_zero_top) simp_all
  also have "\<dots> = (c = 24 \<and> e = 3)" using assms(2,3) by linarith
  finally have m100: "((4 * c + e + 1) mod 100 = 0) = (c = 24 \<and> e = 3)" .
  have "((100 * b + 4 * c + e + 1) mod 400 = 0) = (100 * b + 4 * c + e + 1 = 400)"
    using assms by (intro mod_zero_top) simp_all
  also have "\<dots> = (b = 3 \<and> c = 24 \<and> e = 3)" using assms by linarith
  finally have m400: "((100 * b + 4 * c + e + 1) mod 400 = 0) = (b = 3 \<and> c = 24 \<and> e = 3)" .
  show ?thesis
    unfolding is_leap_def mod4_digits mod100_digits mod400_digits m4 m100 m400 by auto
qed

lemma div_Suc_if: "Suc z div k = z div k + (if Suc z mod k = 0 then 1 else 0)"
  by (simp add: div_Suc)

lemma mod100_mod4: "x mod 100 = 0 \<Longrightarrow> x mod 4 = (0::nat)"
proof -
  assume a: "x mod 100 = 0"
  have "x mod 4 = x mod 100 mod 4" by (simp add: mod_mod_cancel)
  with a show ?thesis by simp
qed

lemma mod400_mod100: "x mod 400 = 0 \<Longrightarrow> x mod 100 = (0::nat)"
proof -
  assume a: "x mod 400 = 0"
  have "x mod 100 = x mod 400 mod 100" by (simp add: mod_mod_cancel)
  with a show ?thesis by simp
qed

lemma not_mod4_not_mod100: "x mod 4 \<noteq> 0 \<Longrightarrow> x mod 100 \<noteq> (0::nat)"
proof
  assume n: "x mod 4 \<noteq> 0" and "x mod 100 = 0"
  then have "x mod 4 = 0" by (intro mod100_mod4)
  with n show False by simp
qed

lemma not_mod100_not_mod400: "x mod 100 \<noteq> 0 \<Longrightarrow> x mod 400 \<noteq> (0::nat)"
proof
  assume n: "x mod 100 \<noteq> 0" and "x mod 400 = 0"
  then have "x mod 100 = 0" by (intro mod400_mod100)
  with n show False by simp
qed

lemma dby_Suc:
  assumes "1 \<le> y"
  shows "days_before_year (Suc y) = days_before_year y + (if is_leap y then 366 else 365)"
proof -
  from assms obtain z where y: "y = Suc z" by (cases y) simp_all
  define A where "A = z div 4"
  define B where "B = z div 100"
  define C where "C = z div 400"
  define d4 :: nat where "d4 = (if Suc z mod 4 = 0 then 1 else 0)"
  define d100 :: nat where "d100 = (if Suc z mod 100 = 0 then 1 else 0)"
  define d400 :: nat where "d400 = (if Suc z mod 400 = 0 then 1 else 0)"
  have le: "B \<le> A" unfolding A_def B_def by (rule div_le_mono2) simp_all
  have now: "days_before_year y = z * 365 + A - B + C"
    by (simp add: y days_before_year_def A_def B_def C_def)
  have next_year: "days_before_year (Suc y) = Suc z * 365 + (A + d4) - (B + d100) + (C + d400)"
    by (simp add: y days_before_year_def div_Suc_if A_def B_def C_def d4_def d100_def d400_def)
  have leap: "is_leap y = (d4 = 1 \<and> (d100 = 0 \<or> d400 = 1))"
    by (simp add: y is_leap_def d4_def d100_def d400_def)
  have dep1: "d4 = 0 \<Longrightarrow> d100 = 0"
    using not_mod4_not_mod100 [of "Suc z"] by (simp add: d4_def d100_def split: if_splits)
  have dep2: "d100 = 0 \<Longrightarrow> d400 = 0"
    using not_mod100_not_mod400 [of "Suc z"] by (simp add: d100_def d400_def split: if_splits)
  have bits: "d4 = 0 \<or> d4 = 1" "d100 = 0 \<or> d100 = 1" "d400 = 0 \<or> d400 = 1"
    by (simp_all add: d4_def d100_def d400_def)
  consider "d4 = 0" "d100 = 0" "d400 = 0" | "d4 = 1" "d100 = 0" "d400 = 0"
    | "d4 = 1" "d100 = 1" "d400 = 0" | "d4 = 1" "d100 = 1" "d400 = 1"
    using bits dep1 dep2 by auto
  then show ?thesis
  proof cases
    case 1 with le show ?thesis unfolding now next_year leap by simp
  next
    case 2 with le show ?thesis unfolding now next_year leap by simp
  next
    case 3 with le show ?thesis unfolding now next_year leap by simp
  next
    case 4 with le show ?thesis unfolding now next_year leap by simp
  qed
qed

lemma month_start_eq:
  "m0 < 12 \<Longrightarrow> month_start (12 * y + m0)
     = days_before_year y + days_before_month y (m0 + 1) + 1"
  by (simp add: month_start_def)

lemma below_12: "m0 < 12 \<Longrightarrow>
  m0 = 0 \<or> m0 = 1 \<or> m0 = 2 \<or> m0 = 3 \<or> m0 = 4 \<or> m0 = 5 \<or> m0 = 6 \<or> m0 = 7 \<or> m0 = 8
  \<or> m0 = 9 \<or> m0 = 10 \<or> m0 = (11::nat)"
  by (simp add: eval_nat_numeral less_Suc_eq)

lemma not_two_leap_years: "is_leap y \<Longrightarrow> \<not> is_leap (Suc y)"
proof
  assume "is_leap y" and "is_leap (Suc y)"
  then have a: "y mod 4 = 0" and b: "Suc y mod 4 = 0" by (simp_all add: is_leap_def)
  from a have "Suc y mod 4 = 1" by (simp add: mod_Suc)
  with b show False by simp
qed

lemma month_length:
  assumes "m0 < 12" "1 \<le> y"
  shows "month_start (12 * y + m0) + 28 \<le> month_start (Suc (12 * y + m0))
       \<and> month_start (Suc (12 * y + m0)) \<le> month_start (12 * y + m0) + 31"
proof (cases "m0 = 11")
  case True
  have eq: "Suc (12 * y + 11) = 12 * Suc y + 0" by simp
  have "month_start (Suc (12 * y + 11)) = days_before_year (Suc y) + 1"
    unfolding eq by (simp add: month_start_def days_before_month_def DAYS_BEFORE_MONTH_def)
  moreover have "month_start (12 * y + 11)
      = days_before_year y + 334 + (if is_leap y then 1 else 0) + 1"
    by (simp add: month_start_eq days_before_month_def DAYS_BEFORE_MONTH_def)
  ultimately show ?thesis using dby_Suc [OF assms(2)] True by simp
next
  case False
  with assms(1) have lt: "m0 + 1 < 12" by simp
  have eq: "Suc (12 * y + m0) = 12 * y + (m0 + 1)" by simp
  have "month_start (Suc (12 * y + m0))
      = days_before_year y + days_before_month y (m0 + 1 + 1) + 1"
    unfolding eq by (rule month_start_eq [OF lt])
  then have next_month: "month_start (Suc (12 * y + m0))
      = days_before_year y + days_before_month y (m0 + 2) + 1"
    by (simp add: add.assoc)
  from below_12 [OF assms(1)] False
  have "m0 = 0 \<or> m0 = 1 \<or> m0 = 2 \<or> m0 = 3 \<or> m0 = 4 \<or> m0 = 5 \<or> m0 = 6 \<or> m0 = 7
      \<or> m0 = 8 \<or> m0 = 9 \<or> m0 = 10" by simp
  then show ?thesis
    unfolding next_month month_start_eq [OF assms(1)]
    by (elim disjE) (simp_all add: days_before_month_def DAYS_BEFORE_MONTH_def)
qed

lemma year_length:
  assumes "m0 < 12" "1 \<le> y"
  shows "month_start (12 * y + m0) + 365 \<le> month_start (12 * y + m0 + 12)
       \<and> month_start (12 * y + m0 + 12) \<le> month_start (12 * y + m0) + 366"
proof -
  have eq: "12 * y + m0 + 12 = 12 * Suc y + m0" by simp
  have next_year: "month_start (12 * y + m0 + 12)
      = days_before_year (Suc y) + days_before_month (Suc y) (m0 + 1) + 1"
    unfolding eq by (rule month_start_eq [OF assms(1)])
  show ?thesis
    unfolding next_year month_start_eq [OF assms(1)] dby_Suc [OF assms(2)]
    using not_two_leap_years [of y]
    by (simp add: days_before_month_def)
qed

lemma month_estimate:
  fixes r :: nat and leap :: bool
  assumes "r < 365"
  defines "month \<equiv> (r + 50) div 32"
  defines "preceding \<equiv> DAYS_BEFORE_MONTH ! month + (if month > 2 \<and> leap then 1 else 0)"
  defines "mm \<equiv> (if preceding > r then month - 1 else month)"
  shows "1 \<le> mm \<and> mm \<le> 12
       \<and> DAYS_BEFORE_MONTH ! mm + (if mm > 2 \<and> leap then 1 else 0) \<le> r
       \<and> (mm < 12 \<longrightarrow> r < DAYS_BEFORE_MONTH ! (mm + 1) + (if mm + 1 > 2 \<and> leap then 1 else 0))"
proof -
  have lo: "month * 32 \<le> r + 50" unfolding month_def by (rule div_times_less_eq_dividend)
  have hi: "r + 50 < month * 32 + 32"
    unfolding month_def using dividend_less_div_times [of 32 "r + 50"] by simp
  from lo hi assms(1) have "1 \<le> month" "month \<le> 12" by linarith+
  then have "month = 1 \<or> month = 2 \<or> month = 3 \<or> month = 4 \<or> month = 5 \<or> month = 6
      \<or> month = 7 \<or> month = 8 \<or> month = 9 \<or> month = 10 \<or> month = 11 \<or> month = 12"
    by (simp add: eval_nat_numeral le_Suc_eq)
  then show ?thesis
    using lo hi assms(1)
    unfolding mm_def preceding_def
    by (elim disjE) (simp_all add: DAYS_BEFORE_MONTH_def)
qed

lemma month_start_december:
  "month_start (12 * y + 11) = days_before_year y + 334 + (if is_leap y then 1 else 0) + 1"
  by (simp add: month_start_eq days_before_month_def DAYS_BEFORE_MONTH_def)

lemma month_start_january: "month_start (Suc (12 * y + 11)) = days_before_year (Suc y) + 1"
proof -
  have eq: "Suc (12 * y + 11) = 12 * Suc y + 0" by simp
  show ?thesis
    unfolding eq by (simp add: month_start_def days_before_month_def DAYS_BEFORE_MONTH_def)
qed

lemma ord2ymd_expand:
  fixes n0 :: nat
  defines "A \<equiv> n0 div 146097"
  defines "r1 \<equiv> n0 mod 146097"
  defines "B \<equiv> r1 div 36524"
  defines "r2 \<equiv> r1 mod 36524"
  defines "C \<equiv> r2 div 1461"
  defines "r3 \<equiv> r2 mod 1461"
  defines "E \<equiv> r3 div 365"
  defines "r4 \<equiv> r3 mod 365"
  defines "Y \<equiv> A * 400 + 1 + B * 100 + C * 4 + E"
  defines "leapyear \<equiv> (E = 3 \<and> (C \<noteq> 24 \<or> B = 3))"
  defines "month \<equiv> (r4 + 50) div 32"
  defines "preceding \<equiv> DAYS_BEFORE_MONTH ! month + (if month > 2 \<and> leapyear then 1 else 0)"
  shows "ord2ymd (Suc n0) =
     (if E = 4 \<or> B = 4 then (Y - 1, 12, 31)
      else if preceding > r4 then
        (Y, month - 1,
         r4 - (preceding - (DAYS_IN_MONTH ! (month - 1)
                 + (if month - 1 = 2 \<and> leapyear then 1 else 0))) + 1)
      else (Y, month, r4 - preceding + 1))"
  by (simp only: ord2ymd_def Let_def diff_Suc_1 preceding_def month_def leapyear_def Y_def
        r4_def E_def r3_def C_def r2_def B_def r1_def A_def)

lemma ord2ymd_month:
  "\<exists>y m0 d. ord2ymd (Suc n0) = (y, m0 + 1, d) \<and> 1 \<le> y \<and> m0 < 12
      \<and> month_start (12 * y + m0) \<le> Suc n0 \<and> Suc n0 < month_start (Suc (12 * y + m0))"
proof -
  define A where "A = n0 div 146097"
  define r1 where "r1 = n0 mod 146097"
  define B where "B = r1 div 36524"
  define r2 where "r2 = r1 mod 36524"
  define C where "C = r2 div 1461"
  define r3 where "r3 = r2 mod 1461"
  define E where "E = r3 div 365"
  define r4 where "r4 = r3 mod 365"
  define Y where "Y = A * 400 + 1 + B * 100 + C * 4 + E"
  define leapyear where "leapyear = (E = 3 \<and> (C \<noteq> 24 \<or> B = 3))"
  define month where "month = (r4 + 50) div 32"
  define preceding where
    "preceding = DAYS_BEFORE_MONTH ! month + (if month > 2 \<and> leapyear then 1 else 0)"
  have expand: "ord2ymd (Suc n0) =
     (if E = 4 \<or> B = 4 then (Y - 1, 12, 31)
      else if preceding > r4 then
        (Y, month - 1,
         r4 - (preceding - (DAYS_IN_MONTH ! (month - 1)
                 + (if month - 1 = 2 \<and> leapyear then 1 else 0))) + 1)
      else (Y, month, r4 - preceding + 1))"
    unfolding preceding_def month_def leapyear_def Y_def r4_def E_def r3_def
      C_def r2_def B_def r1_def A_def
    by (rule ord2ymd_expand)
  have d1: "n0 = 146097 * A + r1" unfolding A_def r1_def by simp
  have d2: "r1 = 36524 * B + r2" unfolding B_def r2_def by simp
  have d3: "r2 = 1461 * C + r3" unfolding C_def r3_def by simp
  have d4: "r3 = 365 * E + r4" unfolding E_def r4_def by simp
  have b1: "r1 < 146097" unfolding r1_def by simp
  have b2: "r2 < 36524" unfolding r2_def by simp
  have b3: "r3 < 1461" unfolding r3_def by simp
  have b4: "r4 < 365" unfolding r4_def by simp
  have B4: "B \<le> 4" using d2 b1 by linarith
  have C24: "C \<le> 24" using d3 b2 by linarith
  have E4: "E \<le> 4" using d4 b3 by linarith
  show ?thesis
  proof (cases "B = 4")
    case True
    with d2 b1 have "r2 = 0" by linarith
    with d3 d4 have z: "C = 0" "E = 0" "r4 = 0" by simp_all
    define y where "y = 400 * A + 100 * 3 + 4 * 24 + 3 + 1"
    have Yy: "Y - 1 = y" by (simp add: Y_def y_def True z)
    have dby: "days_before_year y = 146097 * A + 36524 * 3 + 1461 * 24 + 365 * 3"
      unfolding y_def by (rule dby_digits) simp_all
    have leap: "is_leap y" unfolding y_def by (subst is_leap_digits) simp_all
    have n: "n0 = 146097 * A + 146096" using d1 d2 True \<open>r2 = 0\<close> by simp
    have o: "ord2ymd (Suc n0) = (y, 11 + 1, 31)" using expand True Yy by simp
    have y1: "1 \<le> y" by (simp add: y_def)
    have lo: "month_start (12 * y + 11) \<le> Suc n0"
      by (simp add: month_start_december dby leap n)
    have hi: "Suc n0 < month_start (Suc (12 * y + 11))"
      unfolding month_start_january dby_Suc [OF y1] by (simp add: dby leap n)
    from o y1 lo hi show ?thesis by (intro exI [of _ y] exI [of _ 11] exI [of _ 31]) simp
  next
    case Bn: False
    with B4 have B3: "B \<le> 3" by simp
    show ?thesis
    proof (cases "E = 4")
      case True
      with d4 b3 have r4z: "r4 = 0" and r3: "r3 = 1460" by linarith+
      with d3 b2 have C23: "C \<le> 23" by linarith
      define y where "y = 400 * A + 100 * B + 4 * C + 3 + 1"
      have Yy: "Y - 1 = y" by (simp add: Y_def y_def True)
      have dby: "days_before_year y = 146097 * A + 36524 * B + 1461 * C + 365 * 3"
        unfolding y_def using B3 C24 by (intro dby_digits) simp_all
      have leap: "is_leap y"
        unfolding y_def using B3 C24 C23 by (subst is_leap_digits) simp_all
      have n: "n0 = 146097 * A + 36524 * B + 1461 * C + 1460" using d1 d2 d3 r3 by simp
      have o: "ord2ymd (Suc n0) = (y, 11 + 1, 31)" using expand True Yy by simp
      have y1: "1 \<le> y" by (simp add: y_def)
      have lo: "month_start (12 * y + 11) \<le> Suc n0"
        by (simp add: month_start_december dby leap n)
      have hi: "Suc n0 < month_start (Suc (12 * y + 11))"
        unfolding month_start_january dby_Suc [OF y1] by (simp add: dby leap n)
      from o y1 lo hi show ?thesis by (intro exI [of _ y] exI [of _ 11] exI [of _ 31]) simp
    next
      case En: False
      with E4 have E3: "E \<le> 3" by simp
      have Yd: "Y = 400 * A + 100 * B + 4 * C + E + 1" by (simp add: Y_def)
      have dby: "days_before_year Y = 146097 * A + 36524 * B + 1461 * C + 365 * E"
        unfolding Yd using B3 C24 E3 by (rule dby_digits)
      have leap: "is_leap Y = leapyear"
        unfolding Yd leapyear_def using B3 C24 E3 by (rule is_leap_digits)
      have n: "n0 = days_before_year Y + r4" using d1 d2 d3 d4 dby by simp
      have y1: "1 \<le> Y" by (simp add: Yd)
      define mm where "mm = (if preceding > r4 then month - 1 else month)"
      from month_estimate [OF b4, of leapyear]
      have est: "1 \<le> mm" "mm \<le> 12"
        "DAYS_BEFORE_MONTH ! mm + (if mm > 2 \<and> leapyear then 1 else 0) \<le> r4"
        "mm < 12 \<longrightarrow> r4 < DAYS_BEFORE_MONTH ! (mm + 1) + (if mm + 1 > 2 \<and> leapyear then 1 else 0)"
        unfolding mm_def preceding_def month_def by simp_all
      obtain m0 where m0: "mm = m0 + 1" "m0 < 12"
        using est(1,2) by (cases mm) simp_all
      obtain d where o: "ord2ymd (Suc n0) = (Y, m0 + 1, d)"
        using expand En Bn m0(1) by (simp add: mm_def split: if_splits)
      have lo: "month_start (12 * Y + m0) \<le> Suc n0"
        using est(3) by (simp add: month_start_eq [OF m0(2)] days_before_month_def leap n m0(1))
      have hi: "Suc n0 < month_start (Suc (12 * Y + m0))"
      proof (cases "m0 = 11")
        case True
        show ?thesis
          using b4 unfolding True month_start_january dby_Suc [OF y1] by (simp add: n)
      next
        case False
        with m0(2) have lt: "m0 + 1 < 12" by simp
        have eq: "Suc (12 * Y + m0) = 12 * Y + (m0 + 1)" by simp
        have "month_start (Suc (12 * Y + m0))
            = days_before_year Y + days_before_month Y (m0 + 1 + 1) + 1"
          unfolding eq by (rule month_start_eq [OF lt])
        then show ?thesis
          using est(4) lt by (simp add: days_before_month_def leap n m0(1))
      qed
      from o y1 m0(2) lo hi show ?thesis by (intro exI [of _ Y] exI [of _ m0] exI [of _ d]) simp
    qed
  qed
qed

lemma month_step:
  assumes "12 \<le> k"
  shows "month_start k + 28 \<le> month_start (Suc k) \<and> month_start (Suc k) \<le> month_start k + 31"
proof -
  have k: "k = 12 * (k div 12) + k mod 12" by simp
  have y: "1 \<le> k div 12" using assms by (simp add: Suc_le_eq div_greater_zero_iff)
  have m: "k mod 12 < 12" by simp
  from month_length [OF m y] show ?thesis by (simp only: k [symmetric])
qed

lemma year_step:
  assumes "12 \<le> k"
  shows "month_start k + 365 \<le> month_start (k + 12) \<and> month_start (k + 12) \<le> month_start k + 366"
proof -
  have k: "k = 12 * (k div 12) + k mod 12" by simp
  have y: "1 \<le> k div 12" using assms by (simp add: Suc_le_eq div_greater_zero_iff)
  have m: "k mod 12 < 12" by simp
  from year_length [OF m y] show ?thesis by (simp only: k [symmetric])
qed

lemma month_start_mono:
  assumes "12 \<le> k" "k \<le> k'"
  shows "month_start k \<le> month_start k'"
  using assms(2,1)
proof (induction rule: dec_induct)
  case base
  show ?case by simp
next
  case (step j)
  then have "12 \<le> j" by simp
  from month_step [OF this] step show ?case by simp
qed

lemma month_between:
  assumes "12 \<le> k" "12 \<le> k'" "month_start k \<le> n" "n \<le> n'" "n' < month_start (Suc k')"
  shows "k \<le> k'"
proof (rule ccontr)
  assume "\<not> k \<le> k'"
  then have le: "Suc k' \<le> k" by simp
  have "12 \<le> Suc k'" using assms(2) by simp
  from month_start_mono [OF this le] assms(3-5) show False by simp
qed

lemma month_index_char:
  assumes "1 \<le> n"
  shows "\<exists>k y m0 d. ord2ymd n = (y, m0 + 1, d) \<and> k = 12 * y + m0 \<and> m0 < 12 \<and> 12 \<le> k
      \<and> month_index n = int k \<and> month_start k \<le> n \<and> n < month_start (Suc k)"
proof -
  from assms obtain n0 where n: "n = Suc n0" by (cases n) simp_all
  from ord2ymd_month [of n0] obtain y m0 d where
    o: "ord2ymd (Suc n0) = (y, m0 + 1, d)" and y: "1 \<le> y" and m: "m0 < 12"
    and lo: "month_start (12 * y + m0) \<le> Suc n0"
    and hi: "Suc n0 < month_start (Suc (12 * y + m0))" by blast
  have "month_index n = int (12 * y + m0)" by (simp add: month_index_def n o)
  moreover have "12 \<le> 12 * y + m0" using y by simp
  ultimately show ?thesis using o m lo hi n by auto
qed

lemma eleven_months: "12 \<le> k \<Longrightarrow> month_start (k + 11) \<le> month_start k + 338"
proof -
  assume k: "12 \<le> k"
  then have "12 \<le> k + 11" by simp
  from month_step [OF this] year_step [OF k] show ?thesis by (simp add: ac_simps)
qed

lemma years_ahead:
  assumes "12 \<le> k"
  shows "month_start k + 730 \<le> month_start (k + 24)"
    and "month_start k + 1825 \<le> month_start (k + 60)"
    and "month_start (k + 36) \<le> month_start k + 1098"
proof -
  have s: "\<And>j. 12 \<le> j \<Longrightarrow> month_start j + 365 \<le> month_start (j + 12)"
    "\<And>j. 12 \<le> j \<Longrightarrow> month_start (j + 12) \<le> month_start j + 366"
    using year_step by simp_all
  have a1: "month_start k + 365 \<le> month_start (k + 12)" using assms by (rule s(1))
  have a2: "month_start (k + 12) + 365 \<le> month_start (k + 12 + 12)" using assms by (intro s(1)) simp
  have a3: "month_start (k + 24) + 365 \<le> month_start (k + 24 + 12)" using assms by (intro s(1)) simp
  have a4: "month_start (k + 36) + 365 \<le> month_start (k + 36 + 12)" using assms by (intro s(1)) simp
  have a5: "month_start (k + 48) + 365 \<le> month_start (k + 48 + 12)" using assms by (intro s(1)) simp
  from a1 a2 show "month_start k + 730 \<le> month_start (k + 24)" by (simp add: ac_simps)
  from a1 a2 a3 a4 a5 show "month_start k + 1825 \<le> month_start (k + 60)" by (simp add: ac_simps)
  have b1: "month_start (k + 12) \<le> month_start k + 366" using assms by (rule s(2))
  have b2: "month_start (k + 12 + 12) \<le> month_start (k + 12) + 366" using assms by (intro s(2)) simp
  have b3: "month_start (k + 24 + 12) \<le> month_start (k + 24) + 366" using assms by (intro s(2)) simp
  from b1 b2 b3 show "month_start (k + 36) \<le> month_start k + 1098" by (simp add: ac_simps)
qed

lemma thirty_five_months: "12 \<le> k \<Longrightarrow> month_start (k + 35) \<le> month_start k + 1070"
proof -
  assume k: "12 \<le> k"
  then have "12 \<le> k + 35" by simp
  from month_step [OF this] years_ahead(3) [OF k] show ?thesis by (simp add: ac_simps)
qed

lemma months_ahead_bounds:
  assumes "1 \<le> n"
  shows "360 \<le> d \<Longrightarrow> d \<le> 720 \<Longrightarrow>
           11 \<le> months_ahead n (n + d) \<and> months_ahead n (n + d) \<le> 24"
    and "1080 \<le> d \<Longrightarrow> d \<le> 1800 \<Longrightarrow>
           35 \<le> months_ahead n (n + d) \<and> months_ahead n (n + d) \<le> 60"
proof -
  from month_index_char [OF assms] obtain k where
    k: "12 \<le> k" "month_index n = int k" "month_start k \<le> n" "n < month_start (Suc k)"
    by blast
  have "1 \<le> n + d" using assms by simp
  from month_index_char [OF this] obtain k' where
    k': "12 \<le> k'" "month_index (n + d) = int k'" "month_start k' \<le> n + d"
        "n + d < month_start (Suc k')"
    by blast
  have ahead: "months_ahead n (n + d) = int k' - int k"
    by (simp add: months_ahead_def k(2) k'(2))
  {
    assume d: "360 \<le> d" "d \<le> 720"
    have "month_start (k + 11) \<le> n + d" using eleven_months [OF k(1)] k(3) d(1) by simp
    then have lo: "k + 11 \<le> k'"
      using k(1) k'(1,4) by (intro month_between [of "k + 11" k' "n + d" "n + d"]) simp_all
    have "n + d < month_start (Suc k) + 730" using k(4) d(2) by simp
    also have "\<dots> \<le> month_start (Suc k + 24)" using k(1) by (intro years_ahead(1)) simp
    finally have "n + d < month_start (Suc (k + 24))" by (simp add: ac_simps)
    then have hi: "k' \<le> k + 24"
      using k(1) k'(1,3) by (intro month_between [of k' "k + 24" "n + d" "n + d"]) simp_all
    from lo hi show "11 \<le> months_ahead n (n + d) \<and> months_ahead n (n + d) \<le> 24"
      unfolding ahead by simp
  }
  {
    assume d: "1080 \<le> d" "d \<le> 1800"
    have "month_start (k + 35) \<le> n + d" using thirty_five_months [OF k(1)] k(3) d(1) by simp
    then have lo: "k + 35 \<le> k'"
      using k(1) k'(1,4) by (intro month_between [of "k + 35" k' "n + d" "n + d"]) simp_all
    have "n + d < month_start (Suc k) + 1825" using k(4) d(2) by simp
    also have "\<dots> \<le> month_start (Suc k + 60)" using k(1) by (intro years_ahead(2)) simp
    finally have "n + d < month_start (Suc (k + 60))" by (simp add: ac_simps)
    then have hi: "k' \<le> k + 60"
      using k(1) k'(1,3) by (intro month_between [of k' "k + 60" "n + d" "n + d"]) simp_all
    from lo hi show "35 \<le> months_ahead n (n + d) \<and> months_ahead n (n + d) \<le> 60"
      unfolding ahead by simp
  }
qed

subsection \<open>The horizon of the expiry\<close>

text \<open>
  C9 (as amended): for a generation day from 0001-01-01 on that lies at least 1800
  days before 9999-12-31 (the last day a \<open>datetime\<close> holds), the expiry returned is
  the month, on two digits, and the year of the day \<open>30 * months_to_add\<close> days after
  the generation day, where \<open>months_to_add\<close> is between 12 and 24 for a prepaid card
  type and between 36 and 60 for any other. That month is strictly after the month
  of generation: it lies between 11 and 24 calendar months ahead for a prepaid card
  type and between 35 and 60 calendar months ahead for any other.
\<close>

theorem generate_expiry_horizon:
  assumes "1 \<le> current_date" and "current_date + 1800 \<le> MAX_ORDINAL"
  shows "\<exists>months_to_add year month day rnd'.
           generate_expiry rnd current_date card_type
             = Inr ((if month < 10 then ''0'' else []) @ str_nat month @ ''/'' @ str_nat year, rnd')
         \<and> ord2ymd (current_date + months_to_add * 30) = (year, month, day)
         \<and> 1 \<le> month \<and> month \<le> 12
         \<and> month_index current_date < int year * 12 + int month - 1
         \<and> (if is_prepaid card_type
            then 12 \<le> months_to_add \<and> months_to_add \<le> 24
               \<and> 11 \<le> int year * 12 + int month - 1 - month_index current_date
               \<and> int year * 12 + int month - 1 - month_index current_date \<le> 24
            else 36 \<le> months_to_add \<and> months_to_add \<le> 60
               \<and> 35 \<le> int year * 12 + int month - 1 - month_index current_date
               \<and> int year * 12 + int month - 1 - month_index current_date \<le> 60)"
proof -
  from generate_expiry_date [OF assms(2)] obtain m rnd' where
    g: "generate_expiry rnd current_date card_type = Inr (strftime_mY (current_date + m * 30), rnd')"
    and m: "if is_prepaid card_type then 12 \<le> m \<and> m \<le> 24 else 36 \<le> m \<and> m \<le> 60"
    by blast
  have "1 \<le> current_date + m * 30" using assms(1) by simp
  from month_index_char [OF this] obtain y m0 d where
    o: "ord2ymd (current_date + m * 30) = (y, m0 + 1, d)" and m0: "m0 < 12"
    by blast
  have idx: "month_index (current_date + m * 30) = int y * 12 + int (m0 + 1) - 1"
    by (simp add: month_index_def o)
  have ahead: "months_ahead current_date (current_date + m * 30)
      = int y * 12 + int (m0 + 1) - 1 - month_index current_date"
    by (simp add: months_ahead_def idx)
  have s: "strftime_mY (current_date + m * 30)
      = (if m0 + 1 < 10 then ''0'' else []) @ str_nat (m0 + 1) @ ''/'' @ str_nat y"
    by (simp add: strftime_mY_def o)
  show ?thesis
  proof (cases "is_prepaid card_type")
    case True
    with m have "360 \<le> m * 30" "m * 30 \<le> 720" by simp_all
    from months_ahead_bounds(1) [OF assms(1) this]
    have "11 \<le> int y * 12 + int (m0 + 1) - 1 - month_index current_date"
      "int y * 12 + int (m0 + 1) - 1 - month_index current_date \<le> 24"
      unfolding ahead by simp_all
    with g s o m0 m True show ?thesis
      by (intro exI [of _ m] exI [of _ y] exI [of _ "m0 + 1"] exI [of _ d] exI [of _ rnd']) simp
  next
    case False
    with m have "1080 \<le> m * 30" "m * 30 \<le> 1800" by simp_all
    from months_ahead_bounds(2) [OF assms(1) this]
    have "35 \<le> int y * 12 + int (m0 + 1) - 1 - month_index current_date"
      "int y * 12 + int (m0 + 1) - 1 - month_index current_date \<le> 60"
      unfolding ahead by simp_all
    with g s o m0 m False show ?thesis
      by (intro exI [of _ m] exI [of _ y] exI [of _ "m0 + 1"] exI [of _ d] exI [of _ rnd']) simp
  qed
qed

theorem generate_expiry_horizon_witness:
  "1 \<le> (738521::nat) \<and> 738521 + 1800 \<le> MAX_ORDINAL
   \<and> (\<exists>months_to_add year month day rnd'.
           generate_expiry (\<lambda>k. 5) 738521 (Some ''prepaid'')
             = Inr ((if month < 10 then ''0'' else []) @ str_nat month @ ''/'' @ str_nat year, rnd')
         \<and> ord2ymd (738521 + months_to_add * 30) = (year, month, day)
         \<and> 1 \<le> month \<and> month \<le> 12
         \<and> month_index 738521 < int year * 12 + int month - 1
         \<and> (if is_prepaid (Some ''prepaid'')
            then 12 \<le> months_to_add \<and> months_to_add \<le> 24
               \<and> 11 \<le> int year * 12 + int month - 1 - month_index 738521
               \<and> int year * 12 + int month - 1 - month_index 738521 \<le> 24
            else 36 \<le> months_to_add \<and> months_to_add \<le> 60
               \<and> 35 \<le> int year * 12 + int month - 1 - month_index 738521
               \<and> int year * 12 + int month - 1 - month_index 738521 \<le> 60))"
proof -
  have h1: "1 \<le> (738521::nat)" by simp
  have h2: "738521 + 1800 \<le> MAX_ORDINAL" by (simp add: MAX_ORDINAL_def)
  from h1 h2 generate_expiry_horizon [OF h1 h2, of "\<lambda>k. 5" "Some ''prepaid''"]
  show ?thesis by (intro conjI)
qed

lemma char_of_digit_simps:
  "char_of_digit 0 = CHR ''0''" "char_of_digit 1 = CHR ''1''" "char_of_digit 2 = CHR ''2''"
  "char_of_digit 3 = CHR ''3''" "char_of_digit 4 = CHR ''4''" "char_of_digit 5 = CHR ''5''"
  "char_of_digit 6 = CHR ''6''" "char_of_digit 7 = CHR ''7''" "char_of_digit 8 = CHR ''8''"
  "char_of_digit 9 = CHR ''9''" "char_of_digit (Suc 0) = CHR ''1''"
  by code_simp+

theorem generate_expiry_horizon_counterexample:
  "strftime_mY 738521 = ''01/2023''
   \<and> map_sum id fst (generate_expiry (\<lambda>k. 0) 738521 (Some ''PREPAID'')) = Inr ''12/2023''
   \<and> months_ahead 738521 (738521 + 12 * 30) = 11
   \<and> map_sum id fst (generate_expiry (\<lambda>k. 0) 738521 (Some ''CREDIT'')) = Inr ''12/2025''
   \<and> months_ahead 738521 (738521 + 36 * 30) = 35"
proof -
  have a: "ord2ymd 738521 = (2023, 1, 1)"
    by (simp add: ord2ymd_def Let_def DAYS_BEFORE_MONTH_def DAYS_IN_MONTH_def)
  have b: "ord2ymd 738881 = (2023, 12, 27)"
    by (simp add: ord2ymd_def Let_def DAYS_BEFORE_MONTH_def DAYS_IN_MONTH_def)
  have c: "ord2ymd 739601 = (2025, 12, 16)"
    by (simp add: ord2ymd_def Let_def DAYS_BEFORE_MONTH_def DAYS_IN_MONTH_def)
  have p: "is_prepaid (Some ''PREPAID'')" "\<not> is_prepaid (Some ''CREDIT'')"
    by (simp_all add: is_prepaid_def upper_def upper_char_def)
  show ?thesis
    by (simp add: strftime_mY_def generate_expiry_def random_randint_def draw_def add_days_def
          MAX_ORDINAL_def months_ahead_def month_index_def a b c p
          str_nat_def digits_of_nat.simps char_of_digit_simps)
qed

section \<open>Verification: the admission controller on its in-process store\<close>

lemma keys_differ: "get_rate_limit_key identifier action \<noteq> get_violation_key identifier'"
  by (simp add: get_rate_limit_key_def get_violation_key_def)

lemma config_positive:
  "0 < cfg_window (rate_limit_config_of action)"
  "0 < cfg_requests (rate_limit_config_of action)"
  "0 < cfg_burst (rate_limit_config_of action)"
  by (simp_all add: rate_limit_config_of_def rate_limits_def)

lemma get_current_usage_memory:
  assumes "redis_client lim = None" "holds_stamps lim key" "window \<noteq> 0"
  shows "get_current_usage clk key window lim
    = Inr ((int (length (filter (\<lambda>t. t > t_memory clk - window) (stamps_of lim key))),
            t_memory clk - t_memory clk mod window),
           lim\<lparr>memory_store := (memory_store lim)
              (key \<mapsto> Timestamps (filter (\<lambda>t. t > t_memory clk - window) (stamps_of lim key)))\<rparr>)"
  using assms
  by (auto simp: get_current_usage_def memory_get_usage_def Let_def holds_stamps_def stamps_of_def
      split: option.splits store_value.splits)

lemma get_violation_count_memory:
  assumes "redis_client lim = None" "holds_count lim (get_violation_key identifier)"
  shows "get_violation_count clk identifier lim = Inr (count_of lim (get_violation_key identifier))"
  using assms
  by (auto simp: get_violation_count_def Let_def holds_count_def count_of_def
      split: option.splits store_value.splits)

lemma record_violation_memory:
  assumes "redis_client lim = None" "holds_count lim (get_violation_key identifier)"
  shows "record_violation clk identifier lim
    = Inr (lim\<lparr>memory_store := (memory_store lim)
        (get_violation_key identifier \<mapsto> Count (count_of lim (get_violation_key identifier) + 1))\<rparr>)"
  using assms
  by (auto simp: record_violation_def Let_def holds_count_def count_of_def
      split: option.splits store_value.splits)

lemma record_request_memory:
  assumes "redis_client lim = None" "holds_stamps lim key"
  shows "record_request clk key window lim
    = Inr (lim\<lparr>memory_store := (memory_store lim)
        (key \<mapsto> Timestamps (stamps_of lim key @ [t_record clk]))\<rparr>)"
  using assms
  by (auto simp: record_request_def memory_record_request_def Let_def holds_stamps_def stamps_of_def
      split: option.splits store_value.splits)

lemma after_usage:
  fixes lim :: limiter and key vkey :: string and kept :: "int list"
  assumes "key \<noteq> vkey"
  defines "lim1 \<equiv> lim\<lparr>memory_store := (memory_store lim)(key \<mapsto> Timestamps kept)\<rparr>"
  shows "redis_client lim1 = redis_client lim"
    and "holds_stamps lim1 key"
    and "holds_count lim1 vkey = holds_count lim vkey"
    and "stamps_of lim1 key = kept"
    and "count_of lim1 vkey = count_of lim vkey"
  using assms by (simp_all add: holds_stamps_def holds_count_def stamps_of_def count_of_def)

lemma check_rate_limit_memory:
  fixes hash_fn clk request action user_id lim
  defines "identifier \<equiv> get_client_identifier hash_fn request user_id"
  defines "key \<equiv> get_rate_limit_key identifier action"
  defines "vkey \<equiv> get_violation_key identifier"
  defines "cfg \<equiv> rate_limit_config_of action"
  defines "kept \<equiv> filter (\<lambda>t. t > t_memory clk - cfg_window cfg) (stamps_of lim key)"
  defines "reset \<equiv> t_memory clk - t_memory clk mod cfg_window cfg + cfg_window cfg"
  assumes mode: "redis_client lim = None" and hs: "holds_stamps lim key" and hc: "holds_count lim vkey"
  shows "check_rate_limit hash_fn clk request action user_id lim =
     (if int (length kept) \<ge> cfg_requests cfg then
        (HTTP_429
           \<lparr>tm_reason = ''Rate limit exceeded: '' @ str_int (int (length kept)) @ ''/''
               @ str_int (cfg_requests cfg) @ '' requests per '' @ str_int (cfg_window cfg) @ ''s'',
            tm_retry_after = calculate_penalty_delay (count_of lim vkey),
            tm_violation_count = count_of lim vkey + 1,
            tm_limit = cfg_requests cfg,
            tm_remaining = max 0 (cfg_requests cfg - int (length kept)),
            tm_reset = reset\<rparr>,
         lim\<lparr>memory_store := (memory_store lim)
              (key \<mapsto> Timestamps kept, vkey \<mapsto> Count (count_of lim vkey + 1))\<rparr>)
      else
        (Returned
           \<lparr>al_current_count = int (length kept) + 1,
            al_limit = cfg_requests cfg,
            al_window = cfg_window cfg,
            al_remaining = max 0 (cfg_requests cfg - int (length kept) - 1),
            al_reset_time = reset\<rparr>,
         lim\<lparr>memory_store := (memory_store lim)(key \<mapsto> Timestamps (kept @ [t_record clk]))\<rparr>))"
proof -
  let ?lim1 = "lim\<lparr>memory_store := (memory_store lim)(key \<mapsto> Timestamps kept)\<rparr>"
  have kv: "key \<noteq> vkey" unfolding key_def vkey_def by (rule keys_differ)
  have w: "cfg_window cfg \<noteq> 0" using config_positive(1) [of action] by (simp add: cfg_def)
  have b: "0 < cfg_burst cfg" using config_positive(3) [of action] by (simp add: cfg_def)
  have usage: "get_current_usage clk key (cfg_window cfg) lim
      = Inr ((int (length kept), t_memory clk - t_memory clk mod cfg_window cfg), ?lim1)"
    unfolding kept_def by (rule get_current_usage_memory [OF mode hs w])
  have m1: "redis_client ?lim1 = None" using mode by simp
  have hs1: "holds_stamps ?lim1 key" by (rule after_usage(2) [OF kv])
  have hc1: "holds_count ?lim1 vkey" using hc after_usage(3) [OF kv] by simp
  have s1: "stamps_of ?lim1 key = kept" by (rule after_usage(4) [OF kv])
  have c1: "count_of ?lim1 vkey = count_of lim vkey" by (rule after_usage(5) [OF kv])
  have hc1': "holds_count ?lim1 (get_violation_key identifier)"
    using hc1 by (simp add: vkey_def)
  have vc: "get_violation_count clk identifier ?lim1 = Inr (count_of lim vkey)"
    using get_violation_count_memory [OF m1 hc1'] c1 by (simp add: vkey_def)
  have rv: "record_violation clk identifier ?lim1
      = Inr (lim\<lparr>memory_store := (memory_store lim)
              (key \<mapsto> Timestamps kept, vkey \<mapsto> Count (count_of lim vkey + 1))\<rparr>)"
    using record_violation_memory [OF m1 hc1'] c1 by (simp add: vkey_def)
  have rr: "record_request clk key (cfg_window cfg) ?lim1
      = Inr (lim\<lparr>memory_store := (memory_store lim)(key \<mapsto> Timestamps (kept @ [t_record clk]))\<rparr>)"
    using record_request_memory [OF m1 hs1] s1 by simp
  show ?thesis
    unfolding check_rate_limit_def Let_def
    using b
    by (simp add: usage vc rv rr mode identifier_def [symmetric] key_def [symmetric]
          cfg_def [symmetric] reset_def)
qed

lemma filter_all_live:
  "\<forall>t\<in>set stamps. (bound::int) < t \<Longrightarrow> filter (\<lambda>t. t > bound) stamps = stamps"
  by (induction stamps) simp_all

lemma filter_all_expired:
  "\<forall>t\<in>set stamps. t \<le> (bound::int) \<Longrightarrow> filter (\<lambda>t. t > bound) stamps = []"
  by (induction stamps) auto

lemma after_admission:
  fixes lim :: limiter and key vkey :: string and stamps :: "int list"
  assumes "key \<noteq> vkey"
  defines "lim1 \<equiv> lim\<lparr>memory_store := (memory_store lim)(key \<mapsto> Timestamps stamps)\<rparr>"
  shows "redis_client lim1 = redis_client lim \<and> holds_stamps lim1 key
      \<and> holds_count lim1 vkey = holds_count lim vkey \<and> stamps_of lim1 key = stamps"
  using assms by (simp add: holds_stamps_def holds_count_def stamps_of_def)

lemma after_denial:
  fixes lim :: limiter and key vkey :: string and stamps :: "int list" and c :: int
  assumes "key \<noteq> vkey"
  defines "lim1 \<equiv> lim\<lparr>memory_store := (memory_store lim)(key \<mapsto> Timestamps stamps, vkey \<mapsto> Count c)\<rparr>"
  shows "redis_client lim1 = redis_client lim \<and> holds_stamps lim1 key
      \<and> holds_count lim1 vkey \<and> stamps_of lim1 key = stamps"
  using assms by (simp add: holds_stamps_def holds_count_def stamps_of_def)

lemma run_in_window:
  fixes hash_fn request action user_id
  defines "identifier \<equiv> get_client_identifier hash_fn request user_id"
  defines "key \<equiv> get_rate_limit_key identifier action"
  defines "vkey \<equiv> get_violation_key identifier"
  defines "cfg \<equiv> rate_limit_config_of action"
  assumes "redis_client lim = None" "holds_stamps lim key" "holds_count lim vkey"
    and "\<forall>clk\<in>set clks. \<forall>t\<in>set (stamps_of lim key). t_memory clk - cfg_window cfg < t"
    and "\<forall>clk\<in>set clks. \<forall>clk'\<in>set clks. t_memory clk - cfg_window cfg < t_record clk'"
    and "check_all hash_fn request action user_id clks lim = (outs, lim')"
  shows "map admitted outs
           = map (\<lambda>i. int (length (stamps_of lim key)) + int i < cfg_requests cfg) [0..<length clks]
       \<and> map denied outs
           = map (\<lambda>i. \<not> int (length (stamps_of lim key)) + int i < cfg_requests cfg) [0..<length clks]
       \<and> redis_client lim' = None \<and> holds_stamps lim' key \<and> holds_count lim' vkey
       \<and> set (stamps_of lim' key) \<subseteq> set (stamps_of lim key) \<union> t_record ` set clks"
  using assms(5-)
proof (induction clks arbitrary: lim outs)
  case Nil
  then show ?case by simp
next
  case (Cons clk clks)
  let ?stamps = "stamps_of lim key"
  let ?j = "int (length ?stamps)"
  have kv: "key \<noteq> vkey" unfolding key_def vkey_def by (rule keys_differ)
  have live: "filter (\<lambda>t. t > t_memory clk - cfg_window cfg) ?stamps = ?stamps"
    using Cons.prems(4) by (intro filter_all_live) simp
  obtain out lim1 where step: "check_rate_limit hash_fn clk request action user_id lim = (out, lim1)"
    by (cases "check_rate_limit hash_fn clk request action user_id lim")
  obtain outs1 where rest: "check_all hash_fn request action user_id clks lim1 = (outs1, lim')"
    and outs: "outs = out # outs1"
    using Cons.prems(6) step by (auto split: prod.splits)
  note mem = check_rate_limit_memory [of lim hash_fn request user_id action clk,
      folded identifier_def, folded key_def vkey_def cfg_def, OF Cons.prems(1-3), unfolded live]
  have within1: "\<forall>c\<in>set clks. \<forall>c'\<in>set clks. t_memory c - cfg_window cfg < t_record c'"
    using Cons.prems(5) by simp
  show ?case
  proof (cases "?j < cfg_requests cfg")
    case True
    from mem step True
    have out: "admitted out" "\<not> denied out"
      and lim1: "lim1 = lim\<lparr>memory_store := (memory_store lim)(key \<mapsto> Timestamps (?stamps @ [t_record clk]))\<rparr>"
      by (auto simp: admitted_def denied_def)
    from after_admission [OF kv, of lim "?stamps @ [t_record clk]"] Cons.prems(1,3)
    have p1: "redis_client lim1 = None" "holds_stamps lim1 key" "holds_count lim1 vkey"
      and s1: "stamps_of lim1 key = ?stamps @ [t_record clk]"
      unfolding lim1 by simp_all
    have live1: "\<forall>c\<in>set clks. \<forall>t\<in>set (stamps_of lim1 key). t_memory c - cfg_window cfg < t"
      using Cons.prems(4,5) by (auto simp: s1)
    from Cons.IH [OF p1 live1 within1 rest]
    have ih: "map admitted outs1
           = map (\<lambda>i. ?j + 1 + int i < cfg_requests cfg) [0..<length clks]"
       "map denied outs1
           = map (\<lambda>i. \<not> ?j + 1 + int i < cfg_requests cfg) [0..<length clks]"
       "redis_client lim' = None" "holds_stamps lim' key" "holds_count lim' vkey"
       "set (stamps_of lim' key) \<subseteq> set (stamps_of lim1 key) \<union> t_record ` set clks"
      by (simp_all add: s1 ac_simps)
    have "set (stamps_of lim' key) \<subseteq> set ?stamps \<union> t_record ` set (clk # clks)"
      using ih(6) by (auto simp: s1)
    then show ?thesis
      using True out ih(1-5)
      by (simp add: outs map_upt_Suc add.assoc del: upt_Suc)
  next
    case False
    from mem step False
    have out: "\<not> admitted out" "denied out"
      and lim1: "lim1 = lim\<lparr>memory_store := (memory_store lim)
              (key \<mapsto> Timestamps ?stamps, vkey \<mapsto> Count (count_of lim vkey + 1))\<rparr>"
      by (auto simp: admitted_def denied_def)
    from after_denial [OF kv, of lim ?stamps "count_of lim vkey + 1"] Cons.prems(1)
    have p1: "redis_client lim1 = None" "holds_stamps lim1 key" "holds_count lim1 vkey"
      and s1: "stamps_of lim1 key = ?stamps"
      unfolding lim1 by simp_all
    have live1: "\<forall>c\<in>set clks. \<forall>t\<in>set (stamps_of lim1 key). t_memory c - cfg_window cfg < t"
      using Cons.prems(4) by (auto simp: s1)
    from Cons.IH [OF p1 live1 within1 rest]
    have ih: "map admitted outs1
           = map (\<lambda>i. ?j + int i < cfg_requests cfg) [0..<length clks]"
       "map denied outs1
           = map (\<lambda>i. \<not> ?j + int i < cfg_requests cfg) [0..<length clks]"
       "redis_client lim' = None" "holds_stamps lim' key" "holds_count lim' vkey"
       "set (stamps_of lim' key) \<subseteq> set (stamps_of lim1 key) \<union> t_record ` set clks"
      by (simp_all add: s1)
    have never: "\<And>i. \<not> ?j + int i < cfg_requests cfg" using False by simp
    have "set (stamps_of lim' key) \<subseteq> set ?stamps \<union> t_record ` set (clk # clks)"
      using ih(6) by (auto simp: s1)
    then show ?thesis
      using False out ih(1-5)
      by (simp add: outs map_upt_Suc never del: upt_Suc)
  qed
qed

text \<open>
  C3 (as amended): on the in-process store (a limiter without a Redis client, as the
  module's \<open>rate_limiter\<close>), take a sequence of calls for one request, user id and
  action that lie within one window (every timestamp a call records is inside the
  window of every call of the sequence), at a time when the window has elapsed since
  every timestamp recorded before. With \<open>N\<close> the configured limit of the action, the
  call number \<open>i\<close> (from 0) is admitted exactly when \<open>i < N\<close> and is refused with
  status 429 otherwise: the first \<open>N\<close> calls are admitted and the next one, like
  every further one, is denied. A call that arrives when the window has elapsed since
  every call of the sequence is admitted again.
\<close>

theorem window_limit_in_process:
  assumes "redis_client lim = None"
    and "holds_stamps lim
           (get_rate_limit_key (get_client_identifier hash_fn request user_id) action)"
    and "holds_count lim (get_violation_key (get_client_identifier hash_fn request user_id))"
    and "\<forall>clk\<in>set clks. \<forall>t\<in>set (stamps_of lim
           (get_rate_limit_key (get_client_identifier hash_fn request user_id) action)).
           t \<le> t_memory clk - cfg_window (rate_limit_config_of action)"
    and "\<forall>clk\<in>set clks. \<forall>clk'\<in>set clks.
           t_memory clk - cfg_window (rate_limit_config_of action) < t_record clk'"
    and "check_all hash_fn request action user_id clks lim = (outs, lim')"
    and "\<forall>clk\<in>set clks. t_record clk \<le> t_memory later - cfg_window (rate_limit_config_of action)"
    and "clks \<noteq> []"
  shows "map admitted outs
           = map (\<lambda>i. int i < cfg_requests (rate_limit_config_of action)) [0..<length clks]
       \<and> map denied outs
           = map (\<lambda>i. cfg_requests (rate_limit_config_of action) \<le> int i) [0..<length clks]
       \<and> admitted (fst (check_rate_limit hash_fn later request action user_id lim'))"
proof -
  let ?identifier = "get_client_identifier hash_fn request user_id"
  let ?key = "get_rate_limit_key ?identifier action"
  let ?vkey = "get_violation_key ?identifier"
  let ?cfg = "rate_limit_config_of action"
  have kv: "?key \<noteq> ?vkey" by (rule keys_differ)
  have n: "0 < cfg_requests ?cfg" by (rule config_positive(2))
  have main: "map admitted outs = map (\<lambda>i. int i < cfg_requests ?cfg) [0..<length clks]
      \<and> map denied outs = map (\<lambda>i. \<not> int i < cfg_requests ?cfg) [0..<length clks]
      \<and> redis_client lim' = None \<and> holds_stamps lim' ?key \<and> holds_count lim' ?vkey
      \<and> (\<forall>t\<in>set (stamps_of lim' ?key). t \<le> t_memory later - cfg_window ?cfg)"
  proof (cases clks)
    case Nil
    then show ?thesis using assms(8) by simp
  next
    case (Cons clk rest)
    have expired: "filter (\<lambda>t. t > t_memory clk - cfg_window ?cfg) (stamps_of lim ?key) = []"
      using assms(4) Cons by (intro filter_all_expired) simp
    obtain out lim1 where step: "check_rate_limit hash_fn clk request action user_id lim = (out, lim1)"
      by (cases "check_rate_limit hash_fn clk request action user_id lim")
    obtain outs1 where run1: "check_all hash_fn request action user_id rest lim1 = (outs1, lim')"
      and outs: "outs = out # outs1"
      using assms(6) step Cons by (auto split: prod.splits)
    from check_rate_limit_memory [OF assms(1-3), of clk, unfolded expired] step n
    have out: "admitted out" "\<not> denied out"
      and lim1: "lim1 = lim\<lparr>memory_store := (memory_store lim)(?key \<mapsto> Timestamps [t_record clk])\<rparr>"
      by (auto simp: admitted_def denied_def)
    from after_admission [OF kv, of lim "[t_record clk]"] assms(1,3)
    have p1: "redis_client lim1 = None" "holds_stamps lim1 ?key" "holds_count lim1 ?vkey"
      and s1: "stamps_of lim1 ?key = [t_record clk]"
      unfolding lim1 by simp_all
    have live1: "\<forall>c\<in>set rest. \<forall>t\<in>set (stamps_of lim1 ?key). t_memory c - cfg_window ?cfg < t"
      using assms(5) Cons by (simp add: s1)
    have within1: "\<forall>c\<in>set rest. \<forall>c'\<in>set rest. t_memory c - cfg_window ?cfg < t_record c'"
      using assms(5) Cons by simp
    from run_in_window [OF p1 live1 within1 run1]
    have flags1: "map admitted outs1 = map (\<lambda>i. 1 + int i < cfg_requests ?cfg) [0..<length rest]"
        "map denied outs1 = map (\<lambda>i. \<not> 1 + int i < cfg_requests ?cfg) [0..<length rest]"
      and final: "redis_client lim' = None" "holds_stamps lim' ?key" "holds_count lim' ?vkey"
      and stamps: "set (stamps_of lim' ?key) \<subseteq> {t_record clk} \<union> t_record ` set rest"
      by (simp_all add: s1)
    have "\<forall>t\<in>set (stamps_of lim' ?key). t \<le> t_memory later - cfg_window ?cfg"
      using stamps assms(7) Cons by auto
    then show ?thesis
      using out flags1 final n
      by (simp add: Cons outs map_upt_Suc ac_simps del: upt_Suc)
  qed
  then have expired: "filter (\<lambda>t. t > t_memory later - cfg_window ?cfg) (stamps_of lim' ?key) = []"
    by (intro filter_all_expired) simp
  from main have final: "redis_client lim' = None" "holds_stamps lim' ?key" "holds_count lim' ?vkey"
    by simp_all
  have "admitted (fst (check_rate_limit hash_fn later request action user_id lim'))"
    using check_rate_limit_memory [OF final, of later] n
    by (simp add: expired admitted_def)
  with main show ?thesis by (simp add: not_less)
qed

theorem window_limit_in_process_witness:
  "map admitted (fst (check_all (\<lambda>s. 0) a_request ''auth'' (Some 7)
       (map at_second [1000, 1020, 1040, 1060, 1080, 1100, 1120, 1140, 1160, 1180, 1200])
       rate_limiter))
     = [True, True, True, True, True, True, True, True, True, True, False]
   \<and> map denied (fst (check_all (\<lambda>s. 0) a_request ''auth'' (Some 7)
       (map at_second [1000, 1020, 1040, 1060, 1080, 1100, 1120, 1140, 1160, 1180, 1200])
       rate_limiter))
     = [False, False, False, False, False, False, False, False, False, False, True]
   \<and> admitted (fst (check_rate_limit (\<lambda>s. 0) (at_second 1500) a_request ''auth'' (Some 7)
       (snd (check_all (\<lambda>s. 0) a_request ''auth'' (Some 7)
          (map at_second [1000, 1020, 1040, 1060, 1080, 1100, 1120, 1140, 1160, 1180, 1200])
          rate_limiter))))"
proof -
  let ?clks = "map at_second [1000, 1020, 1040, 1060, 1080, 1100, 1120, 1140, 1160, 1180, 1200]"
  let ?run = "check_all (\<lambda>s. 0) a_request ''auth'' (Some 7) ?clks rate_limiter"
  have cfg: "cfg_window (rate_limit_config_of ''auth'') = 300"
      "cfg_requests (rate_limit_config_of ''auth'') = 10"
    by (simp_all add: rate_limit_config_of_def rate_limits_def)
  have h1: "redis_client rate_limiter = None" by (simp add: rate_limiter_def)
  have h2: "holds_stamps rate_limiter
      (get_rate_limit_key (get_client_identifier (\<lambda>s. 0) a_request (Some 7)) ''auth'')"
    by (simp add: rate_limiter_def holds_stamps_def)
  have h2': "\<forall>clk\<in>set ?clks. \<forall>t\<in>set (stamps_of rate_limiter
      (get_rate_limit_key (get_client_identifier (\<lambda>s. 0) a_request (Some 7)) ''auth'')).
      t \<le> t_memory clk - cfg_window (rate_limit_config_of ''auth'')"
    by (simp add: rate_limiter_def stamps_of_def)
  have h3: "holds_count rate_limiter
      (get_violation_key (get_client_identifier (\<lambda>s. 0) a_request (Some 7)))"
    by (simp add: rate_limiter_def holds_count_def)
  have h4: "\<forall>clk\<in>set ?clks. \<forall>clk'\<in>set ?clks.
      t_memory clk - cfg_window (rate_limit_config_of ''auth'') < t_record clk'"
    by (simp add: cfg at_second_def)
  have h5: "?run = (fst ?run, snd ?run)" by simp
  have h6: "\<forall>clk\<in>set ?clks.
      t_record clk \<le> t_memory (at_second 1500) - cfg_window (rate_limit_config_of ''auth'')"
    by (simp add: cfg at_second_def)
  have ix: "[0..<11] = [0, 1, 2, 3, 4, 5, 6, 7, 8, 9, 10]" by (simp add: upt_rec)
  have h7: "?clks \<noteq> []" by simp
  from window_limit_in_process [OF h1 h2 h3 h2' h4 h5 h6 h7]
  show ?thesis by (simp add: cfg ix)
qed

theorem window_limit_in_process_counterexample:
  "cfg_requests (rate_limit_config_of ''auth'') = 10
   \<and> cfg_window (rate_limit_config_of ''auth'') = 300
   \<and> map admitted (fst (check_all (\<lambda>s. 0) a_request ''auth'' (Some 7)
        (map at_second [1000, 1001, 1002, 1003]) redis_limiter))
      = [True, True, True, False]
   \<and> map reason_of (fst (check_all (\<lambda>s. 0) a_request ''auth'' (Some 7)
        (map at_second [1000, 1001, 1002, 1003]) redis_limiter))
      = [None, None, None, Some ''Burst limit exceeded: 3/3 requests per minute'']"
  by code_simp

section \<open>Verification: the penalty\<close>

text \<open>
  C4: the first violation of an identity is answered with the largest delay, not the
  smallest. The delay is computed from the count read before the violation is
  recorded, which is 0 for the first one; 0 is no key of \<open>penalty_multipliers\<close>, so
  the default multiplier 16 applies. Thirteen calls of the action \<open>auth\<close> (limit 10)
  in one second on the in-process store: the three refusals carry the delays 960, 60
  and 120 seconds.
\<close>

theorem first_violation_penalty:
  "calculate_penalty_delay 0 = 960 \<and> calculate_penalty_delay 1 = 60
   \<and> map retry_after_of (fst (check_all (\<lambda>s. 0) a_request ''auth'' (Some 7)
        (map at_second [1000, 1000, 1000, 1000, 1000, 1000, 1000, 1000, 1000, 1000,
                        1000, 1000, 1000]) rate_limiter))
      = [None, None, None, None, None, None, None, None, None, None,
         Some 960, Some 60, Some 120]
   \<and> map violation_count_of (fst (check_all (\<lambda>s. 0) a_request ''auth'' (Some 7)
        (map at_second [1000, 1000, 1000, 1000, 1000, 1000, 1000, 1000, 1000, 1000,
                        1000, 1000, 1000]) rate_limiter))
      = [None, None, None, None, None, None, None, None, None, None,
         Some 1, Some 2, Some 3]"
  by code_simp


section \<open>Verification: the fallback against the Redis path\<close>

text \<open>
  C10: the in-process fallback does not do what the Redis path does. Six calls of
  \<open>card_generation\<close> (burst 5) in six consecutive seconds: the Redis path refuses the
  sixth for the burst limit, the in-process store admits all six, since without a
  Redis client \<open>recent_requests\<close> stays 0. And the violation count of the in-process
  store never expires: eleven calls of \<open>auth\<close> (limit 10) and, 9000 seconds later,
  eleven more; the second refusal counts as violation 2 on the in-process store,
  while on the Redis path the count, set to expire after 3600 seconds, starts again
  at 1.
\<close>

theorem fallback_differs:
  "map admitted (fst (check_all (\<lambda>s. 0) a_request ''card_generation'' (Some 7)
        (map at_second [1000, 1001, 1002, 1003, 1004, 1005]) rate_limiter))
      = [True, True, True, True, True, True]
   \<and> map reason_of (fst (check_all (\<lambda>s. 0) a_request ''card_generation'' (Some 7)
        (map at_second [1000, 1001, 1002, 1003, 1004, 1005]) redis_limiter))
      = [None, None, None, None, None, Some ''Burst limit exceeded: 5/5 requests per minute'']
   \<and> map violation_count_of (fst (check_all (\<lambda>s. 0) a_request ''auth'' (Some 7)
        (map at_second [1000, 1001, 1002, 1003, 1004, 1005, 1006, 1007, 1008, 1009, 1010,
                        10000, 10001, 10002, 10003, 10004, 10005, 10006, 10007, 10008,
                        10009, 10010]) rate_limiter))
      = [None, None, None, None, None, None, None, None, None, None, Some 1,
         None, None, None, None, None, None, None, None, None, None, Some 2]
   \<and> map violation_count_of (fst (check_all (\<lambda>s. 0) a_request ''auth'' (Some 7)
        (map at_second [1000, 1001, 1002, 1003, 1004, 1005, 1006, 1007, 1008, 1009, 1010,
                        10000, 10001, 10002, 10003, 10004, 10005, 10006, 10007, 10008,
                        10009, 10010]) redis_limiter))
      = [None, None, None, Some 1, Some 2, Some 3, Some 4, Some 5, Some 6, Some 7, Some 8,
         None, None, None, Some 1, Some 2, Some 3, Some 4, Some 5, Some 6, Some 7, Some 8]"
  by code_simp

end
